theory Spec2Isabelle
  imports Main "HOL-Library.Word" "HOL-Library.Sublist" "HOL-Library.AList"
begin

unbundle bit_operations_syntax

section \<open>Text, characters and the library operations used by the script\<close>

text \<open>
  A Python \<open>str\<close> is a sequence of Unicode code points, so a text buffer is a list of
  natural numbers. \<open>ascii\<close> writes an ASCII literal of the script as such a list;
  characters beyond ASCII are written as their code point.
\<close>

type_synonym ustr = "nat list"

definition ascii :: "string \<Rightarrow> ustr" where
  "ascii s = map of_char s"

text \<open>\<open>str.replace(old, new)\<close>: every non-overlapping occurrence, found left to right.
  With an empty \<open>old\<close> Python inserts \<open>new\<close> before every character and at the end.\<close>

function str_replace :: "ustr \<Rightarrow> ustr \<Rightarrow> ustr \<Rightarrow> ustr" where
  "str_replace old new s =
     (if old = [] then concat (map (\<lambda>c. new @ [c]) s) @ new
      else if s = [] then []
      else if prefix old s then new @ str_replace old new (drop (length old) s)
      else hd s # str_replace old new (tl s))"
  by pat_completeness auto
termination
  by (relation "measure (\<lambda>(old, new, s). length s)") auto

declare str_replace.simps [simp del]

text \<open>
  \<open>re.sub(pattern, repl, text)\<close> with a callable \<open>repl\<close>: the text is scanned left to
  right; at each position the pattern is tried (\<open>m prev rest\<close>, where \<open>prev\<close> is the
  character before the position, for look-behind, and the result is the length of the
  match); a match is replaced by \<open>repl\<close> of the matched text and the scan goes on after
  it, otherwise the character is copied. The callable may update a state (the closures of
  \<open>extract_protected_regions\<close> do). No pattern of the script matches the empty string;
  a matcher result of length 0 is treated as no match.
\<close>

function re_sub_st ::
  "(nat option \<Rightarrow> ustr \<Rightarrow> nat option) \<Rightarrow> ('s \<Rightarrow> ustr \<Rightarrow> ustr \<times> 's) \<Rightarrow>
     nat option \<Rightarrow> ustr \<Rightarrow> 's \<Rightarrow> ustr \<times> 's" where
  "re_sub_st m r p [] st = ([], st)"
| "re_sub_st m r p (c # cs) st =
     (case m p (c # cs) of
        None \<Rightarrow> (case re_sub_st m r (Some c) cs st of (out, st') \<Rightarrow> (c # out, st'))
      | Some n \<Rightarrow>
          if n = 0 then (case re_sub_st m r (Some c) cs st of (out, st') \<Rightarrow> (c # out, st'))
          else (case r st (take n (c # cs)) of (rep, st1) \<Rightarrow>
                 (case re_sub_st m r (Some (last (take n (c # cs)))) (drop n (c # cs)) st1 of
                    (out, st2) \<Rightarrow> (rep @ out, st2))))"
  by pat_completeness auto
termination
  by (relation "measure (\<lambda>(m, r, p, s, st). length s)") auto

text \<open>A replacement without side effects; \<open>re_sub_from\<close> is the scan from a position whose
  previous character is \<open>p\<close>, and \<open>re_sub\<close> the whole call.\<close>

definition re_sub_from ::
  "(nat option \<Rightarrow> ustr \<Rightarrow> nat option) \<Rightarrow> (ustr \<Rightarrow> ustr) \<Rightarrow> nat option \<Rightarrow> ustr \<Rightarrow> ustr" where
  "re_sub_from m r p s = fst (re_sub_st m (\<lambda>st t. (r t, st)) p s ())"

definition re_sub :: "(nat option \<Rightarrow> ustr \<Rightarrow> nat option) \<Rightarrow> (ustr \<Rightarrow> ustr) \<Rightarrow> ustr \<Rightarrow> ustr" where
  "re_sub m r s = re_sub_from m r None s"

text \<open>Character classes. \<open>\s\<close> on a \<open>str\<close> pattern is Unicode white space.\<close>

definition is_space :: "nat \<Rightarrow> bool" where
  "is_space c = ((0x09 \<le> c \<and> c \<le> 0x0D) \<or> (0x1C \<le> c \<and> c \<le> 0x20) \<or> c = 0x85 \<or> c = 0xA0
     \<or> c = 0x1680 \<or> (0x2000 \<le> c \<and> c \<le> 0x200A) \<or> c = 0x2028 \<or> c = 0x2029
     \<or> c = 0x202F \<or> c = 0x205F \<or> c = 0x3000)"

text \<open>\<open>[A-Za-z0-9]\<close>\<close>

definition is_alnum :: "nat \<Rightarrow> bool" where
  "is_alnum c = ((0x41 \<le> c \<and> c \<le> 0x5A) \<or> (0x61 \<le> c \<and> c \<le> 0x7A) \<or> (0x30 \<le> c \<and> c \<le> 0x39))"

text \<open>The class of U+3000 to U+9FFF\<close>

definition is_cjk :: "nat \<Rightarrow> bool" where
  "is_cjk c = (0x3000 \<le> c \<and> c \<le> 0x9FFF)"

text \<open>\<open>[!-/:-@[-`{-~]\<close>\<close>

definition is_escapable :: "nat \<Rightarrow> bool" where
  "is_escapable c = ((0x21 \<le> c \<and> c \<le> 0x2F) \<or> (0x3A \<le> c \<and> c \<le> 0x40)
     \<or> (0x5B \<le> c \<and> c \<le> 0x60) \<or> (0x7B \<le> c \<and> c \<le> 0x7E))"

text \<open>
  A lower-case ASCII letter of a pattern compiled with \<open>re.IGNORECASE\<close> matches itself,
  its upper-case form, and for \<open>i\<close>, \<open>s\<close> and \<open>k\<close> the non-ASCII letters that case-fold
  to it (U+0130, U+0131; U+017F; U+212A).
\<close>

definition icase_eq :: "nat \<Rightarrow> nat \<Rightarrow> bool" where
  "icase_eq p c = (c = p \<or> c + 32 = p \<or> (p = 0x69 \<and> (c = 0x130 \<or> c = 0x131))
     \<or> (p = 0x73 \<and> c = 0x17F) \<or> (p = 0x6B \<and> c = 0x212A))"

fun iprefix :: "ustr \<Rightarrow> ustr \<Rightarrow> bool" where
  "iprefix [] s = True"
| "iprefix (p # ps) [] = False"
| "iprefix (p # ps) (c # cs) = (icase_eq p c \<and> iprefix ps cs)"

section \<open>uuid.uuid4().hex\<close>

text \<open>
  \<open>uuid.uuid4()\<close> draws 16 random bytes and sets the version and variant bits;
  \<open>.hex\<close> is the 128-bit value as 32 lower-case hexadecimal digits. The random bytes
  of the n-th draw are a parameter of the model.
\<close>

definition uuid4 :: "128 word \<Rightarrow> 128 word" where
  "uuid4 r = (((r AND NOT (push_bit 48 0xC000)) OR push_bit 48 0x8000)
                AND NOT (push_bit 64 0xF000)) OR push_bit 76 4"

definition hex_digit :: "nat \<Rightarrow> nat" where
  "hex_digit d = (if d < 10 then 0x30 + d else 0x57 + d)"

definition uuid_hex :: "128 word \<Rightarrow> ustr" where
  "uuid_hex w = map (\<lambda>i. hex_digit (unat (drop_bit (4 * (31 - i)) w AND 0xF))) [0..<32]"

section \<open>The protect and restore stages\<close>

text \<open>The dictionary \<open>protected\<close> keeps insertion order; assigning to a key that is
  already there keeps its place (\<open>AList.update\<close>). \<open>calls\<close> counts the uuid draws so far.\<close>

record pstate =
  calls :: nat
  protected :: "(ustr \<times> ustr) list"

text \<open>
  Each pattern of the script is a function from the character before a position and the
  text from that position on to the length of the match there. In all of them a greedy
  class is followed by a character outside the class, so the class takes the longest run
  and backtracking into it cannot help: \<open>takeWhile\<close> is the run and \<open>dropWhile\<close> what follows.

  \<open><[^<>]+>\<close>
\<close>

definition match_html_tag :: "nat option \<Rightarrow> ustr \<Rightarrow> nat option" where
  "match_html_tag p s =
     (case s of
        c # t \<Rightarrow>
          (let body = takeWhile (\<lambda>x. x \<noteq> 0x3C \<and> x \<noteq> 0x3E) t;
               rest = dropWhile (\<lambda>x. x \<noteq> 0x3C \<and> x \<noteq> 0x3E) t
           in if c = 0x3C \<and> body \<noteq> [] \<and> rest \<noteq> [] \<and> hd rest = 0x3E
              then Some (length body + 2) else None)
      | [] \<Rightarrow> None)"

text \<open>\<open>!\[[^\]]*\]\([^\)]*\)\<close>\<close>

definition match_md_image :: "nat option \<Rightarrow> ustr \<Rightarrow> nat option" where
  "match_md_image p s =
     (case s of
        c # d # t \<Rightarrow>
          (let alt = takeWhile (\<lambda>x. x \<noteq> 0x5D) t;
               t1 = dropWhile (\<lambda>x. x \<noteq> 0x5D) t;
               url = takeWhile (\<lambda>x. x \<noteq> 0x29) (drop 2 t1);
               t2 = dropWhile (\<lambda>x. x \<noteq> 0x29) (drop 2 t1)
           in if c = 0x21 \<and> d = 0x5B \<and> take 2 t1 = [0x5D, 0x28] \<and> t2 \<noteq> []
              then Some (length alt + length url + 5) else None)
      | _ \<Rightarrow> None)"

text \<open>\<open>\[[^\]]+\]\([^\)]+\)\<close>\<close>

definition match_md_link :: "nat option \<Rightarrow> ustr \<Rightarrow> nat option" where
  "match_md_link p s =
     (case s of
        c # t \<Rightarrow>
          (let txt = takeWhile (\<lambda>x. x \<noteq> 0x5D) t;
               t1 = dropWhile (\<lambda>x. x \<noteq> 0x5D) t;
               url = takeWhile (\<lambda>x. x \<noteq> 0x29) (drop 2 t1);
               t2 = dropWhile (\<lambda>x. x \<noteq> 0x29) (drop 2 t1)
           in if c = 0x5B \<and> txt \<noteq> [] \<and> take 2 t1 = [0x5D, 0x28] \<and> url \<noteq> [] \<and> t2 \<noteq> []
              then Some (length txt + length url + 4) else None)
      | [] \<Rightarrow> None)"

definition tag_replacer :: "(nat \<Rightarrow> 128 word) \<Rightarrow> pstate \<Rightarrow> ustr \<Rightarrow> ustr \<times> pstate" where
  "tag_replacer rnd st mt =
     (let key = ascii ''__HTML_TAG_'' @ uuid_hex (uuid4 (rnd (calls st))) @ ascii ''__''
      in (key, \<lparr>calls = calls st + 1, protected = AList.update key mt (protected st)\<rparr>))"

definition markdown_link_replacer :: "(nat \<Rightarrow> 128 word) \<Rightarrow> pstate \<Rightarrow> ustr \<Rightarrow> ustr \<times> pstate" where
  "markdown_link_replacer rnd st mt =
     (let key = ascii ''__MARKDOWN_LINK_'' @ uuid_hex (uuid4 (rnd (calls st))) @ ascii ''__''
      in (key, \<lparr>calls = calls st + 1, protected = AList.update key mt (protected st)\<rparr>))"

definition extract_protected_regions ::
  "(nat \<Rightarrow> 128 word) \<Rightarrow> ustr \<Rightarrow> ustr \<times> (ustr \<times> ustr) list" where
  "extract_protected_regions rnd text =
     (case re_sub_st match_html_tag (tag_replacer rnd) None text \<lparr>calls = 0, protected = []\<rparr> of
        (text1, st1) \<Rightarrow>
     (case re_sub_st match_md_image (markdown_link_replacer rnd) None text1 st1 of
        (text2, st2) \<Rightarrow>
     (case re_sub_st match_md_link (markdown_link_replacer rnd) None text2 st2 of
        (text3, st3) \<Rightarrow> (text3, protected st3))))"

fun restore_protected_regions :: "ustr \<Rightarrow> (ustr \<times> ustr) list \<Rightarrow> ustr" where
  "restore_protected_regions text [] = text"
| "restore_protected_regions text ((key, original) # items) =
     restore_protected_regions (str_replace key original text) items"

section \<open>The rewriting stages\<close>

text \<open>The table \<open>escape_map\<close>, in the order of the source.\<close>

definition escape_map :: "(nat \<times> ustr) list" where
  "escape_map =
     [(0x28, [0xFF08]), (0x29, [0xFF09]), (0x3F, [0xFF1F]), (0x21, [0xFF01]),
      (0x2D, [0xFF0D]), (0x2C, [0xFF0C]), (0x2E, [0xFF0E]), (0x3A, [0xFF1A]),
      (0x3B, [0xFF1B]), (0x5B, [0xFF3B]), (0x5D, [0xFF3D]), (0x7B, [0xFF5B]),
      (0x7D, [0xFF5D]), (0x3C, [0x3008]), (0x3E, [0x3009]), (0x23, [0xFF03]),
      (0x26, [0xFF06]), (0x2A, [0xFF0A]), (0x25, [0xFF05]), (0x3D, [0xFF1D]),
      (0x2B, [0xFF0B]), (0x2F, [0xFF0F]), (0x5C, [0xFF3C]), (0x7C, [0xFF5C]),
      (0x5E, [0xFF3E]), (0x7E, [0xFF5E]), (0x22, [0xFF02]), (0x27, [0xFF07])]"

text \<open>\<open>\\([!-/:-@[-`{-~])\<close>\<close>

definition match_escaped :: "nat option \<Rightarrow> ustr \<Rightarrow> nat option" where
  "match_escaped p s =
     (case s of c # d # t \<Rightarrow> if c = 0x5C \<and> is_escapable d then Some 2 else None
      | _ \<Rightarrow> None)"

text \<open>\<open>escape_map.get(symbol, symbol)\<close>, where \<open>symbol\<close> is group 1, the second character
  of the match.\<close>

definition escaped_replacer :: "ustr \<Rightarrow> ustr" where
  "escaped_replacer mt =
     (let symbol = drop 1 mt
      in case map_of escape_map (hd symbol) of Some v \<Rightarrow> v | None \<Rightarrow> symbol)"

definition convert_escaped_halfwidth_to_fullwidth :: "ustr \<Rightarrow> ustr" where
  "convert_escaped_halfwidth_to_fullwidth text = re_sub match_escaped escaped_replacer text"

definition convert_specific_symbols :: "ustr \<Rightarrow> ustr" where
  "convert_specific_symbols text =
     (let text = str_replace [0xB7] [0x30FB] text;
          text = str_replace [0x2500, 0x2500] [0x2E3A] text;
          text = str_replace [0x2013, 0x2013] [0x2E3A] text;
          text = str_replace (ascii ''...'') [0x2026] text;
          text = str_replace (ascii ''?'') [0xFF1F] text;
          text = str_replace [0xFF1F, 0x20] [0xFF1F] text
      in text)"

text \<open>\<open>(?<![A-Za-z0-9])([A-Za-z0-9])(?![A-Za-z0-9])\<close>\<close>

definition match_single_alnum :: "nat option \<Rightarrow> ustr \<Rightarrow> nat option" where
  "match_single_alnum p s =
     (case s of
        c # t \<Rightarrow>
          if (case p of None \<Rightarrow> True | Some b \<Rightarrow> \<not> is_alnum b) \<and> is_alnum c
             \<and> (case t of [] \<Rightarrow> True | a # _ \<Rightarrow> \<not> is_alnum a)
          then Some 1 else None
      | [] \<Rightarrow> None)"

definition to_fullwidth :: "ustr \<Rightarrow> ustr" where
  "to_fullwidth mt = [hd mt + 0xFEE0]"

definition convert_single_halfwidth_alnum_to_fullwidth :: "ustr \<Rightarrow> ustr" where
  "convert_single_halfwidth_alnum_to_fullwidth text = re_sub match_single_alnum to_fullwidth text"

text \<open>A character U+FF1F or U+FF01, with look-behind and look-ahead for one character of
  U+3000 to U+9FFF each\<close>

definition match_question_exclamation :: "nat option \<Rightarrow> ustr \<Rightarrow> nat option" where
  "match_question_exclamation p s =
     (case s of
        c # t \<Rightarrow>
          if (case p of None \<Rightarrow> False | Some b \<Rightarrow> is_cjk b) \<and> (c = 0xFF1F \<or> c = 0xFF01)
             \<and> (case t of [] \<Rightarrow> False | a # _ \<Rightarrow> is_cjk a)
          then Some 1 else None
      | [] \<Rightarrow> None)"

definition add_fullwidth_space_after_question_exclamation :: "ustr \<Rightarrow> ustr" where
  "add_fullwidth_space_after_question_exclamation text =
     re_sub match_question_exclamation (\<lambda>m. m @ [0x3000]) text"

text \<open>The character U+3000, with look-ahead for U+300D\<close>

definition match_space_before_quote :: "nat option \<Rightarrow> ustr \<Rightarrow> nat option" where
  "match_space_before_quote p s =
     (case s of c # d # t \<Rightarrow> if c = 0x3000 \<and> d = 0x300D then Some 1 else None
      | _ \<Rightarrow> None)"

definition remove_fullwidth_space_before_closing_quote :: "ustr \<Rightarrow> ustr" where
  "remove_fullwidth_space_before_closing_quote text =
     re_sub match_space_before_quote (\<lambda>m. []) text"

text \<open>\<open>re.search(r'src\s*=\s*["\']([^"\']+)["\']', tag)\<close>: group 1 of the leftmost match.\<close>

definition is_quote :: "nat \<Rightarrow> bool" where
  "is_quote c = (c = 0x22 \<or> c = 0x27)"

definition match_src :: "ustr \<Rightarrow> ustr option" where
  "match_src s =
     (let t1 = dropWhile is_space (drop 3 s);
          t2 = dropWhile is_space (drop 1 t1);
          v = takeWhile (\<lambda>x. \<not> is_quote x) (drop 1 t2);
          t3 = dropWhile (\<lambda>x. \<not> is_quote x) (drop 1 t2)
      in if take 3 s = ascii ''src'' \<and> take 1 t1 = ascii ''='' \<and> t2 \<noteq> [] \<and> is_quote (hd t2)
            \<and> v \<noteq> [] \<and> t3 \<noteq> []
         then Some v else None)"

fun search_src :: "ustr \<Rightarrow> ustr option" where
  "search_src [] = None"
| "search_src (c # cs) =
     (case match_src (c # cs) of Some v \<Rightarrow> Some v | None \<Rightarrow> search_src cs)"

text \<open>\<open><img\s+[^>]*>\<close> with \<open>re.IGNORECASE\<close>. White space is not \<open>>\<close>, so \<open>\s+\<close> and
  \<open>[^>]*\<close> together take everything up to the first \<open>>\<close>, however the two share it.\<close>

definition match_img :: "nat option \<Rightarrow> ustr \<Rightarrow> nat option" where
  "match_img p s =
     (let t = drop 4 s;
          sp = takeWhile is_space t;
          body = takeWhile (\<lambda>x. x \<noteq> 0x3E) (dropWhile is_space t);
          rest = dropWhile (\<lambda>x. x \<noteq> 0x3E) (dropWhile is_space t)
      in if take 1 s = ascii ''<'' \<and> length s \<ge> 4 \<and> iprefix (ascii ''img'') (drop 1 s)
            \<and> sp \<noteq> [] \<and> rest \<noteq> []
         then Some (4 + length sp + length body + 1) else None)"

definition img_replacer :: "ustr \<Rightarrow> ustr" where
  "img_replacer tag =
     (case search_src tag of
        Some src \<Rightarrow> ascii ''![]('' @ src @ ascii '')''
      | None \<Rightarrow> tag)"

definition convert_img_to_markdown :: "ustr \<Rightarrow> ustr" where
  "convert_img_to_markdown text = re_sub match_img img_replacer text"

text \<open>\<open><{tag}(\s[^<>]*?)?>\<close> with \<open>re.IGNORECASE\<close>, replaced by \<open><{tag}\1 />\<close>. The
  optional group is tried first: a white-space character and the lazy class, which stops
  at the first \<open>>\<close> and fails at a \<open><\<close> or at the end; without the group the tag name must be
  followed by \<open>>\<close> at once. Group 1 is the matched text between the tag name and the
  closing bracket (empty when the group did not take part).\<close>

definition void_tags :: "ustr list" where
  "void_tags = map ascii
     [''area'', ''base'', ''br'', ''col'', ''embed'', ''hr'',
      ''img'', ''input'', ''link'', ''meta'', ''param'',
      ''source'', ''track'', ''wbr'']"

definition match_void_tag :: "ustr \<Rightarrow> nat option \<Rightarrow> ustr \<Rightarrow> nat option" where
  "match_void_tag tag p s =
     (let t = drop (1 + length tag) s;
          body = takeWhile (\<lambda>x. x \<noteq> 0x3C \<and> x \<noteq> 0x3E) (drop 1 t);
          rest = dropWhile (\<lambda>x. x \<noteq> 0x3C \<and> x \<noteq> 0x3E) (drop 1 t)
      in if take 1 s = ascii ''<'' \<and> length s \<ge> 1 + length tag \<and> iprefix tag (drop 1 s) \<and> t \<noteq> []
         then (if is_space (hd t) \<and> rest \<noteq> [] \<and> hd rest = 0x3E then Some (length tag + length body + 3)
               else if hd t = 0x3E then Some (length tag + 2)
               else None)
         else None)"

definition void_tag_replacer :: "ustr \<Rightarrow> ustr \<Rightarrow> ustr" where
  "void_tag_replacer tag mt =
     ascii ''<'' @ tag @ butlast (drop (1 + length tag) mt) @ ascii '' />''"

definition convert_html_void_tags_to_xhtml :: "ustr \<Rightarrow> ustr" where
  "convert_html_void_tags_to_xhtml text =
     foldl (\<lambda>text tag. re_sub (match_void_tag tag) (void_tag_replacer tag) text) text void_tags"

definition replace_br_tag :: "ustr \<Rightarrow> ustr" where
  "replace_br_tag text = str_replace (ascii ''<br>'') [0x0A, 0x0A] text"

definition replace_tag_to_symbol :: "ustr \<Rightarrow> ustr" where
  "replace_tag_to_symbol text =
     str_replace (ascii ''>'') [0x3009, 0xFF1F] (str_replace (ascii ''<'') [0x3008] text)"

section \<open>The pipeline\<close>

definition process_text :: "(nat \<Rightarrow> 128 word) \<Rightarrow> ustr \<Rightarrow> ustr" where
  "process_text rnd text =
     (let text = convert_img_to_markdown text;
          text = replace_br_tag text;
          text = replace_tag_to_symbol text
      in case extract_protected_regions rnd text of
           (text, prot) \<Rightarrow>
             (let text = convert_escaped_halfwidth_to_fullwidth text;
                  text = convert_specific_symbols text;
                  text = convert_single_halfwidth_alnum_to_fullwidth text;
                  text = add_fullwidth_space_after_question_exclamation text;
                  text = remove_fullwidth_space_before_closing_quote text;
                  text = convert_html_void_tags_to_xhtml text
              in restore_protected_regions text prot))"

section \<open>Notions used to state the properties\<close>

text \<open>An ASCII letter or digit with no ASCII letter or digit immediately before or after it.\<close>

definition isolated_alnum :: "ustr \<Rightarrow> nat \<Rightarrow> bool" where
  "isolated_alnum s i = (is_alnum (s ! i) \<and> \<not> (0 < i \<and> is_alnum (s ! (i - 1)))
     \<and> \<not> (i + 1 < length s \<and> is_alnum (s ! (i + 1))))"

definition widen_isolated :: "ustr \<Rightarrow> ustr" where
  "widen_isolated s = map (\<lambda>i. if isolated_alnum s i then s ! i + 0xFEE0 else s ! i) [0..<length s]"

text \<open>A full-width question or exclamation mark with a character of U+3000 to U+9FFF
  immediately before and immediately after it.\<close>

definition flanked_by_cjk :: "ustr \<Rightarrow> nat \<Rightarrow> bool" where
  "flanked_by_cjk s i = ((s ! i = 0xFF1F \<or> s ! i = 0xFF01) \<and> 0 < i \<and> is_cjk (s ! (i - 1))
     \<and> i + 1 < length s \<and> is_cjk (s ! (i + 1)))"

definition space_after_flanked :: "ustr \<Rightarrow> ustr" where
  "space_after_flanked s =
     concat (map (\<lambda>i. if flanked_by_cjk s i then [s ! i, 0x3000] else [s ! i]) [0..<length s])"

text \<open>The same two notions for a scan that starts after a character \<open>p\<close>.\<close>

definition widen_at :: "nat option \<Rightarrow> ustr \<Rightarrow> nat \<Rightarrow> nat" where
  "widen_at p s i =
     (if is_alnum (s ! i)
         \<and> \<not> (case (if i = 0 then p else Some (s ! (i - 1))) of None \<Rightarrow> False | Some b \<Rightarrow> is_alnum b)
         \<and> \<not> (i + 1 < length s \<and> is_alnum (s ! (i + 1)))
      then s ! i + 0xFEE0 else s ! i)"

definition space_at :: "nat option \<Rightarrow> ustr \<Rightarrow> nat \<Rightarrow> ustr" where
  "space_at p s i =
     (if (s ! i = 0xFF1F \<or> s ! i = 0xFF01)
         \<and> (case (if i = 0 then p else Some (s ! (i - 1))) of None \<Rightarrow> False | Some b \<Rightarrow> is_cjk b)
         \<and> i + 1 < length s \<and> is_cjk (s ! (i + 1))
      then [s ! i, 0x3000] else [s ! i])"

text \<open>A quoted \<open>src\<close> text at the start of \<open>t\<close>: the letters \<open>src\<close>, optional white space,
  \<open>=\<close>, optional white space, a quote, the non-empty value \<open>v\<close> free of quotes, a quote.\<close>

definition quoted_src_at :: "ustr \<Rightarrow> ustr \<Rightarrow> bool" where
  "quoted_src_at t v =
     (\<exists>ws1 ws2 q1 q2 rest.
        t = ascii ''src'' @ ws1 @ [0x3D] @ ws2 @ [q1] @ v @ [q2] @ rest
        \<and> list_all is_space ws1 \<and> list_all is_space ws2 \<and> is_quote q1 \<and> is_quote q2
        \<and> v \<noteq> [] \<and> list_all (\<lambda>x. \<not> is_quote x) v)"




text \<open>The characters of \<open>.hex\<close>, and the placeholder key made from one uuid draw.\<close>

definition is_hex :: "nat \<Rightarrow> bool" where
  "is_hex c = ((0x30 \<le> c \<and> c \<le> 0x39) \<or> (0x61 \<le> c \<and> c \<le> 0x66))"

definition md_key :: "128 word \<Rightarrow> ustr" where
  "md_key r = ascii ''__MARKDOWN_LINK_'' @ uuid_hex (uuid4 r) @ ascii ''__''"

text \<open>A buffer without ASCII angle brackets, and the key of an HTML tag.\<close>

definition no_angle :: "ustr \<Rightarrow> bool" where
  "no_angle s = (0x3C \<notin> set s \<and> 0x3E \<notin> set s)"

definition html_key :: "128 word \<Rightarrow> ustr" where
  "html_key r = ascii ''__HTML_TAG_'' @ uuid_hex (uuid4 r) @ ascii ''__''"

section \<open>Properties of the library operations\<close>

lemma re_sub_from_Nil [simp]: "re_sub_from m r p [] = []"
  by (simp add: re_sub_from_def)

lemma re_sub_from_Cons:
  "re_sub_from m r p (c # cs) =
     (case m p (c # cs) of
        None \<Rightarrow> c # re_sub_from m r (Some c) cs
      | Some n \<Rightarrow>
          if n = 0 then c # re_sub_from m r (Some c) cs
          else r (take n (c # cs)) @ re_sub_from m r (Some (last (take n (c # cs)))) (drop n (c # cs)))"
  by (simp add: re_sub_from_def split: option.split prod.split)

lemma str_replace_Nil [simp]: "old \<noteq> [] \<Longrightarrow> str_replace old new [] = []"
  by (simp add: str_replace.simps)

lemma str_replace_Cons:
  "old \<noteq> [] \<Longrightarrow> str_replace old new (c # cs) =
     (if prefix old (c # cs) then new @ str_replace old new (drop (length old) (c # cs))
      else c # str_replace old new cs)"
  by (subst str_replace.simps) simp

lemma str_replace_absent:
  "old \<noteq> [] \<Longrightarrow> hd old \<notin> set s \<Longrightarrow> str_replace old new s = s"
proof (induction s)
  case Nil
  then show ?case by simp
next
  case (Cons c cs)
  then have "\<not> prefix old (c # cs)" by (cases old) auto
  with Cons show ?case by (simp add: str_replace_Cons)
qed

lemma upt_Suc_shift: "map f [0..<Suc n] = f 0 # map (\<lambda>i. f (Suc i)) [0..<n]"
  by (simp add: upt_conv_Cons map_Suc_upt [symmetric] del: upt_Suc)

text \<open>The equations that evaluate the pipeline on a given text.\<close>

lemmas stage_defs =
  process_text_def convert_img_to_markdown_def replace_br_tag_def replace_tag_to_symbol_def
  extract_protected_regions_def convert_escaped_halfwidth_to_fullwidth_def
  convert_specific_symbols_def convert_single_halfwidth_alnum_to_fullwidth_def
  add_fullwidth_space_after_question_exclamation_def
  remove_fullwidth_space_before_closing_quote_def convert_html_void_tags_to_xhtml_def
  re_sub_def void_tags_def

lemmas match_defs =
  match_img_def match_html_tag_def match_md_image_def match_md_link_def match_escaped_def
  match_single_alnum_def match_question_exclamation_def match_space_before_quote_def
  match_void_tag_def match_src_def img_replacer_def escaped_replacer_def to_fullwidth_def
  void_tag_replacer_def tag_replacer_def markdown_link_replacer_def escape_map_def

lemmas char_defs =
  ascii_def is_space_def is_alnum_def is_cjk_def is_escapable_def icase_eq_def is_quote_def

lemmas eval = stage_defs match_defs char_defs re_sub_from_Cons str_replace_Cons Let_def

section \<open>Isolated alphanumerics and punctuation spacing\<close>

lemma match_single_alnum_Cons:
  "match_single_alnum p (c # t) =
     (if (case p of None \<Rightarrow> True | Some b \<Rightarrow> \<not> is_alnum b) \<and> is_alnum c
         \<and> (case t of [] \<Rightarrow> True | a # _ \<Rightarrow> \<not> is_alnum a)
      then Some 1 else None)"
  by (simp add: match_single_alnum_def)

lemma match_question_exclamation_Cons:
  "match_question_exclamation p (c # t) =
     (if (case p of None \<Rightarrow> False | Some b \<Rightarrow> is_cjk b) \<and> (c = 0xFF1F \<or> c = 0xFF01)
         \<and> (case t of [] \<Rightarrow> False | a # _ \<Rightarrow> is_cjk a)
      then Some 1 else None)"
  by (simp add: match_question_exclamation_def)

lemma widen_at_Suc: "widen_at p (c # cs) (Suc i) = widen_at (Some c) cs i"
  by (cases i) (simp_all add: widen_at_def)

lemma space_at_Suc: "space_at p (c # cs) (Suc i) = space_at (Some c) cs i"
  by (cases i) (simp_all add: space_at_def)

lemma single_alnum_from:
  "re_sub_from match_single_alnum to_fullwidth p s = map (widen_at p s) [0..<length s]"
proof (induction s arbitrary: p)
  case Nil
  then show ?case by simp
next
  case (Cons c cs)
  have hd: "re_sub_from match_single_alnum to_fullwidth p (c # cs) =
      widen_at p (c # cs) 0 # re_sub_from match_single_alnum to_fullwidth (Some c) cs"
    by (cases cs; cases p)
       (simp_all add: re_sub_from_Cons match_single_alnum_Cons to_fullwidth_def widen_at_def)
  show ?case
    unfolding length_Cons upt_Suc_shift hd Cons.IH by (simp add: widen_at_Suc)
qed

lemma convert_single_is_widen: "convert_single_halfwidth_alnum_to_fullwidth s = widen_isolated s"
proof -
  have "map (widen_at None s) [0..<length s] =
        map (\<lambda>i. if isolated_alnum s i then s ! i + 0xFEE0 else s ! i) [0..<length s]"
    by (rule map_cong) (auto simp: widen_at_def isolated_alnum_def)
  then show ?thesis
    unfolding convert_single_halfwidth_alnum_to_fullwidth_def re_sub_def widen_isolated_def
        single_alnum_from .
qed

lemma question_exclamation_from:
  "re_sub_from match_question_exclamation (\<lambda>m. m @ [0x3000]) p s =
     concat (map (space_at p s) [0..<length s])"
proof (induction s arbitrary: p)
  case Nil
  then show ?case by simp
next
  case (Cons c cs)
  have hd: "re_sub_from match_question_exclamation (\<lambda>m. m @ [0x3000]) p (c # cs) =
      space_at p (c # cs) 0 @ re_sub_from match_question_exclamation (\<lambda>m. m @ [0x3000]) (Some c) cs"
    by (cases cs; cases p)
       (simp_all add: re_sub_from_Cons match_question_exclamation_Cons space_at_def)
  show ?case
    unfolding length_Cons upt_Suc_shift hd Cons.IH by (simp add: space_at_Suc)
qed

lemma add_space_is_spec: "add_fullwidth_space_after_question_exclamation s = space_after_flanked s"
proof -
  have "map (space_at None s) [0..<length s] =
        map (\<lambda>i. if flanked_by_cjk s i then [s ! i, 0x3000] else [s ! i]) [0..<length s]"
    by (rule map_cong) (auto simp: space_at_def flanked_by_cjk_def)
  then show ?thesis
    unfolding add_fullwidth_space_after_question_exclamation_def re_sub_def
        space_after_flanked_def question_exclamation_from
    by (rule arg_cong)
qed

text \<open>
  C7. \<open>convert_single_halfwidth_alnum_to_fullwidth\<close> replaces every ASCII letter or digit
  that has no ASCII letter or digit immediately before or after it by the character
  0xFEE0 code points higher and leaves every other character, so every run of two or more
  ASCII alphanumerics, as it is; \<open>process_text\<close> leaves \<open>A1\<close> unchanged and turns \<open>A\<close> into
  the full-width letter U+FF21.
\<close>

theorem isolated_alnum_widening:
  "convert_single_halfwidth_alnum_to_fullwidth s = widen_isolated s
   \<and> process_text rnd (ascii ''A1'') = ascii ''A1''
   \<and> process_text rnd (ascii ''A'') = [0xFF21]"
proof (intro conjI)
  show "convert_single_halfwidth_alnum_to_fullwidth s = widen_isolated s"
    by (rule convert_single_is_widen)
  show "process_text rnd (ascii ''A1'') = ascii ''A1''"
    by (simp add: eval)
  show "process_text rnd (ascii ''A'') = [0xFF21]"
    by (simp add: eval)
qed

theorem isolated_alnum_widening_witness:
  "widen_isolated (ascii ''a 12 b'') = [0xFF41, 0x20, 0x31, 0x32, 0x20, 0xFF42]"
proof -
  have "convert_single_halfwidth_alnum_to_fullwidth (ascii ''a 12 b'')
          = [0xFF41, 0x20, 0x31, 0x32, 0x20, 0xFF42]"
    by (simp add: eval)
  with isolated_alnum_widening [of "ascii ''a 12 b''"] show ?thesis
    by simp
qed

text \<open>
  C8. \<open>add_fullwidth_space_after_question_exclamation\<close> inserts a full-width space
  U+3000 immediately after every full-width question or exclamation mark that is both
  immediately preceded and immediately followed by a character of U+3000 to U+9FFF, and
  changes nothing else; \<open>process_text\<close> turns U+89C1 U+FF1F U+89C1 into
  U+89C1 U+FF1F U+3000 U+89C1.
\<close>

theorem cjk_punctuation_spacing:
  "add_fullwidth_space_after_question_exclamation s = space_after_flanked s
   \<and> process_text rnd [0x89C1, 0xFF1F, 0x89C1] = [0x89C1, 0xFF1F, 0x3000, 0x89C1]"
proof (intro conjI)
  show "add_fullwidth_space_after_question_exclamation s = space_after_flanked s"
    by (rule add_space_is_spec)
  show "process_text rnd [0x89C1, 0xFF1F, 0x89C1] = [0x89C1, 0xFF1F, 0x3000, 0x89C1]"
    by (simp add: eval)
qed

theorem cjk_punctuation_spacing_witness:
  "space_after_flanked [0x3042, 0xFF01, 0x3042, 0xFF01] = [0x3042, 0xFF01, 0x3000, 0x3042, 0xFF01]"
proof -
  have "add_fullwidth_space_after_question_exclamation [0x3042, 0xFF01, 0x3042, 0xFF01]
          = [0x3042, 0xFF01, 0x3000, 0x3042, 0xFF01]"
    by (simp add: eval)
  with cjk_punctuation_spacing [of "[0x3042, 0xFF01, 0x3042, 0xFF01]"] show ?thesis
    by simp
qed

section \<open>Image tags without attributes\<close>

lemma match_img_first: "c \<noteq> 0x3C \<Longrightarrow> match_img q (c # t) = None"
  by (simp add: match_img_def ascii_def)

lemma re_sub_from_skip:
  assumes "\<And>c q t. c \<in> set xs \<Longrightarrow> m q (c # t) = None"
  shows "re_sub_from m r p (xs @ ys) = xs @ re_sub_from m r (if xs = [] then p else Some (last xs)) ys"
  using assms
proof (induction xs arbitrary: p)
  case Nil
  then show ?case by simp
next
  case (Cons c cs)
  have "m p (c # cs @ ys) = None" by (rule Cons.prems) simp
  moreover have "re_sub_from m r (Some c) (cs @ ys)
      = cs @ re_sub_from m r (if cs = [] then Some c else Some (last cs)) ys"
    by (rule Cons.IH) (simp add: Cons.prems)
  ultimately show ?case by (simp add: re_sub_from_Cons)
qed

lemma re_sub_from_skip_all:
  assumes "\<And>c q t. c \<in> set xs \<Longrightarrow> m q (c # t) = None"
  shows "re_sub_from m r p xs = xs"
  using re_sub_from_skip [of xs m r p "[]"] assms by simp

lemma match_img_needs_space:
  "rest = [] \<or> \<not> is_space (hd rest) \<Longrightarrow> match_img p (a # b # c # d # rest) = None"
  by (cases rest) (auto simp: match_img_def)

lemma img_without_space_unchanged:
  assumes "rest = [] \<or> \<not> is_space (hd rest)" and "0x3C \<notin> set rest"
  shows "convert_img_to_markdown (ascii ''<img'' @ rest) = ascii ''<img'' @ rest"
proof -
  have "re_sub_from match_img img_replacer (Some 0x3C) (ascii ''img'' @ rest) = ascii ''img'' @ rest"
    using assms(2) by (intro re_sub_from_skip_all match_img_first) (auto simp: ascii_def)
  then show ?thesis
    using match_img_needs_space [OF assms(1), where p = None and a = "0x3C" and b = "0x69" and c = "0x6D" and d = "0x67"]
    by (simp add: convert_img_to_markdown_def re_sub_def re_sub_from_Cons ascii_def)
qed

text \<open>
  C10. The pattern of \<open>convert_img_to_markdown\<close> needs a white-space character after
  the tag name: at a position where the four characters of \<open><img\<close> (in any case) are
  followed by anything else, or by nothing, it does not match, and such a tag with no
  further \<open><\<close> goes through the stage unchanged; \<open>process_text\<close> turns \<open><img>\<close> into
  U+3008 \<open>img\<close> U+3009 U+FF1F.
\<close>

theorem img_without_whitespace_not_converted:
  "((rest = [] \<or> \<not> is_space (hd rest)) \<longrightarrow> match_img p (a # b # c # d # rest) = None)
   \<and> ((rest = [] \<or> \<not> is_space (hd rest)) \<and> 0x3C \<notin> set rest \<longrightarrow>
        convert_img_to_markdown (ascii ''<img'' @ rest) = ascii ''<img'' @ rest)
   \<and> process_text rnd (ascii ''<img>'') = [0x3008] @ ascii ''img'' @ [0x3009, 0xFF1F]"
proof (intro conjI impI)
  show "process_text rnd (ascii ''<img>'') = [0x3008] @ ascii ''img'' @ [0x3009, 0xFF1F]"
    by (simp add: eval)
qed (auto intro: match_img_needs_space img_without_space_unchanged)

theorem img_without_whitespace_not_converted_witness:
  "\<not> is_space (hd (ascii ''/>'')) \<and> 0x3C \<notin> set (ascii ''/>'')
   \<and> match_img None (ascii ''<img/>'') = None
   \<and> convert_img_to_markdown (ascii ''<img/>'') = ascii ''<img/>''"
  using img_without_whitespace_not_converted [where rest = "ascii ''/>''" and p = None and a = "0x3C" and b = "0x69" and c = "0x6D" and d = "0x67"]
  by (simp add: ascii_def is_space_def)

section \<open>Idempotence\<close>

text \<open>
  C6. \<open>process_text\<close> is not idempotent on texts with ASCII angle brackets: for the text
  \<open>>\<close> followed by U+89C1 a second run inserts a second full-width space.
\<close>

theorem process_text_not_idempotent:
  "\<exists>s. (0x3C \<in> set s \<or> 0x3E \<in> set s)
       \<and> process_text rnd (process_text rnd s) \<noteq> process_text rnd s"
proof (intro exI conjI)
  show "0x3C \<in> set [0x3E, 0x89C1] \<or> 0x3E \<in> set [0x3E, 0x89C1::nat]" by simp
  have 1: "process_text rnd [0x3E, 0x89C1] = [0x3009, 0xFF1F, 0x3000, 0x89C1]"
    by (simp add: eval)
  have 2: "process_text rnd [0x3009, 0xFF1F, 0x3000, 0x89C1] = [0x3009, 0xFF1F, 0x3000, 0x3000, 0x89C1]"
    by (simp add: eval)
  show "process_text rnd (process_text rnd [0x3E, 0x89C1]) \<noteq> process_text rnd [0x3E, 0x89C1]"
    unfolding 1 2 by simp
qed

section \<open>Escaped symbols\<close>

lemma match_escaped_first: "c \<noteq> 0x5C \<Longrightarrow> match_escaped q (c # t) = None"
  by (cases t) (simp_all add: match_escaped_def)

lemma re_sub_from_context:
  "(\<And>q q' t. m q t = m q' t) \<Longrightarrow> re_sub_from m r p s = re_sub_from m r p' s"
proof (induction s arbitrary: p p' rule: length_induct)
  case (1 s)
  show ?case
  proof (cases s)
    case Nil
    then show ?thesis by simp
  next
    case (Cons c cs)
    have m: "m p (c # cs) = m p' (c # cs)" by (rule 1)
    have a: "re_sub_from m r (Some c) cs = re_sub_from m r None cs"
      using 1 Cons by simp
    show ?thesis
    proof (cases "m p' (c # cs)")
      case None
      then show ?thesis using m Cons by (simp add: re_sub_from_Cons)
    next
      case (Some n)
      have "n \<noteq> 0 \<Longrightarrow> re_sub_from m r (Some (last (take n (c # cs)))) (drop n (c # cs))
          = re_sub_from m r None (drop n (c # cs))"
        using 1 Cons by (cases n) simp_all
      then show ?thesis using m Cons Some by (simp add: re_sub_from_Cons)
    qed
  qed
qed

lemma escaped_from: "re_sub_from match_escaped r p s = re_sub_from match_escaped r None s"
  by (rule re_sub_from_context) (simp add: match_escaped_def)

lemma convert_escaped_Nil: "convert_escaped_halfwidth_to_fullwidth [] = []"
  by (simp add: convert_escaped_halfwidth_to_fullwidth_def re_sub_def)

lemma convert_escaped_match:
  "is_escapable c \<Longrightarrow> convert_escaped_halfwidth_to_fullwidth (0x5C # c # rest) =
     (case map_of escape_map c of Some v \<Rightarrow> v | None \<Rightarrow> [c])
       @ convert_escaped_halfwidth_to_fullwidth rest"
  by (simp add: convert_escaped_halfwidth_to_fullwidth_def re_sub_def re_sub_from_Cons
      match_escaped_def escaped_replacer_def escaped_from [of _ "Some c"])

lemma convert_escaped_copy:
  "\<not> (x = 0x5C \<and> rest \<noteq> [] \<and> is_escapable (hd rest)) \<Longrightarrow>
     convert_escaped_halfwidth_to_fullwidth (x # rest) =
     x # convert_escaped_halfwidth_to_fullwidth rest"
  by (cases rest)
     (auto simp: convert_escaped_halfwidth_to_fullwidth_def re_sub_def re_sub_from_Cons
      match_escaped_def escaped_from [of _ "Some x"])

lemma escape_map_keys:
  "map fst escape_map =
     [0x28, 0x29, 0x3F, 0x21, 0x2D, 0x2C, 0x2E, 0x3A, 0x3B, 0x5B, 0x5D, 0x7B, 0x7D, 0x3C, 0x3E,
      0x23, 0x26, 0x2A, 0x25, 0x3D, 0x2B, 0x2F, 0x5C, 0x7C, 0x5E, 0x7E, 0x22, 0x27]"
  by (simp add: escape_map_def)

lemma escape_map_card: "card (dom (map_of escape_map)) = 28"
proof -
  have "distinct (map fst escape_map)" unfolding escape_map_keys by simp
  then have "card (set (map fst escape_map)) = length (map fst escape_map)"
    by (rule distinct_card)
  moreover have "dom (map_of escape_map) = set (map fst escape_map)"
    by (simp add: dom_map_of_conv_image_fst)
  moreover have "length (map fst escape_map) = 28"
    unfolding escape_map_keys by simp
  ultimately show ?thesis by simp
qed

lemma escape_map_unmapped:
  "is_escapable c \<Longrightarrow> (map_of escape_map c = None) = (c \<in> {0x24, 0x40, 0x5F, 0x60})"
  unfolding map_of_eq_None_iff set_map [symmetric] escape_map_keys is_escapable_def
  by (simp, arith)

lemma escape_map_values:
  "map_of escape_map c = Some v \<Longrightarrow>
     is_escapable c \<and> v = [if c = 0x3C then 0x3008 else if c = 0x3E then 0x3009 else c + 0xFEE0]"
  by (drule map_of_SomeD) (auto simp: escape_map_def is_escapable_def)

section \<open>The src attribute of an image tag\<close>

lemma takeWhile_run: "list_all P xs \<Longrightarrow> \<not> P y \<Longrightarrow> takeWhile P (xs @ y # ys) = xs"
  by (induction xs) auto

lemma dropWhile_run: "list_all P xs \<Longrightarrow> \<not> P y \<Longrightarrow> dropWhile P (xs @ y # ys) = y # ys"
  by (induction xs) auto









section \<open>Placeholder keys\<close>

lemma nibble_less: "unat ((x :: 128 word) AND 0xF) < 16"
proof -
  have "x AND 0xF \<le> 0xF" by (rule word_and_le1)
  then have "unat (x AND 0xF) \<le> unat (0xF :: 128 word)" by (simp only: word_le_nat_alt)
  then show ?thesis by simp
qed

lemma length_uuid_hex [simp]: "length (uuid_hex w) = 32"
  by (simp add: uuid_hex_def)

lemma hex_digit_is_hex: "d < 16 \<Longrightarrow> is_hex (hex_digit d)"
  by (auto simp: is_hex_def hex_digit_def)

lemma uuid_hex_is_hex: "c \<in> set (uuid_hex w) \<Longrightarrow> is_hex c"
  unfolding uuid_hex_def by (auto intro!: hex_digit_is_hex nibble_less)

lemma is_hex_alnum: "is_hex c \<Longrightarrow> is_alnum c"
  by (auto simp: is_hex_def is_alnum_def)

lemma re_sub_st_skip:
  assumes "\<And>c q t. c \<in> set xs \<Longrightarrow> m q (c # t) = None"
  shows "re_sub_st m r p (xs @ ys) st =
     (case re_sub_st m r (if xs = [] then p else Some (last xs)) ys st of
        (out, st') \<Rightarrow> (xs @ out, st'))"
  using assms
proof (induction xs arbitrary: p)
  case Nil
  then show ?case by simp
next
  case (Cons c cs)
  have "m p (c # cs @ ys) = None" by (rule Cons.prems) simp
  moreover have "re_sub_st m r (Some c) (cs @ ys) st
      = (case re_sub_st m r (if cs = [] then Some c else Some (last cs)) ys st of
           (out, st') \<Rightarrow> (cs @ out, st'))"
    by (rule Cons.IH) (simp add: Cons.prems)
  ultimately show ?case by (simp split: prod.split)
qed

lemma match_html_tag_first: "c \<noteq> 0x3C \<Longrightarrow> match_html_tag q (c # t) = None"
  by (simp add: match_html_tag_def Let_def)


lemma match_question_exclamation_first:
  "c \<noteq> 0xFF1F \<Longrightarrow> c \<noteq> 0xFF01 \<Longrightarrow> match_question_exclamation q (c # t) = None"
  by (simp add: match_question_exclamation_def)

lemma match_space_before_quote_first: "c \<noteq> 0x3000 \<Longrightarrow> match_space_before_quote q (c # t) = None"
  by (cases t) (simp_all add: match_space_before_quote_def)

lemma match_void_tag_first: "c \<noteq> 0x3C \<Longrightarrow> match_void_tag tag q (c # t) = None"
  by (simp add: match_void_tag_def ascii_def)

lemma match_single_alnum_first: "\<not> is_alnum c \<Longrightarrow> match_single_alnum q (c # t) = None"
  by (simp add: match_single_alnum_def)

text \<open>A run of two or more alphanumerics\<close>

lemma single_alnum_run_after:
  "is_alnum a \<Longrightarrow> list_all is_alnum xs \<Longrightarrow>
     re_sub_from match_single_alnum to_fullwidth (Some a) (xs @ ys)
       = xs @ re_sub_from match_single_alnum to_fullwidth (Some (last (a # xs))) ys"
  by (induction xs arbitrary: a) (simp_all add: re_sub_from_Cons match_single_alnum_Cons)

lemma single_alnum_run:
  assumes "list_all is_alnum h" and "2 \<le> length h"
  shows "re_sub_from match_single_alnum to_fullwidth p (h @ ys)
       = h @ re_sub_from match_single_alnum to_fullwidth (Some (last h)) ys"
proof -
  from assms(2) obtain a b xs where h: "h = a # b # xs"
    by (cases h; cases "tl h") auto
  with assms(1) have al: "is_alnum a" "list_all is_alnum (b # xs)" by simp_all
  have "re_sub_from match_single_alnum to_fullwidth p (a # (b # xs) @ ys)
      = a # re_sub_from match_single_alnum to_fullwidth (Some a) ((b # xs) @ ys)"
    using al by (simp add: re_sub_from_Cons match_single_alnum_Cons)
  also have "\<dots> = a # (b # xs) @ re_sub_from match_single_alnum to_fullwidth (Some (last (a # b # xs))) ys"
    using single_alnum_run_after [OF al] by simp
  finally show ?thesis by (simp add: h)
qed

lemma uuid_hex_not_Nil [simp]: "uuid_hex w \<noteq> []"
  using length_uuid_hex [of w] by (simp del: length_uuid_hex add: length_0_conv [symmetric])

lemma hex_scan_alnum:
  "re_sub_from match_single_alnum to_fullwidth p (uuid_hex w @ ys)
     = uuid_hex w @ re_sub_from match_single_alnum to_fullwidth (Some (last (uuid_hex w))) ys"
  by (rule single_alnum_run) (auto simp: list_all_iff intro: is_hex_alnum uuid_hex_is_hex)

lemma str_replace_skip:
  "old \<noteq> [] \<Longrightarrow> hd old \<notin> set xs \<Longrightarrow> str_replace old new (xs @ ys) = xs @ str_replace old new ys"
proof (induction xs)
  case Nil
  then show ?case by simp
next
  case (Cons c cs)
  then have "\<not> prefix old (c # cs @ ys)" by (cases old) auto
  with Cons show ?case by (simp add: str_replace_Cons)
qed

lemma str_replace_short: "length s < length old \<Longrightarrow> str_replace old new s = s"
proof (induction s)
  case Nil
  then show ?case by (cases old) simp_all
next
  case (Cons c cs)
  then have "\<not> prefix old (c # cs)" by (auto dest: prefix_length_le)
  moreover have "old \<noteq> []" using Cons.prems by auto
  ultimately show ?case using Cons by (simp add: str_replace_Cons)
qed

lemma str_replace_same_length:
  assumes "length s = length old" and "old \<noteq> []"
  shows "str_replace old new s = (if s = old then new else s)"
proof (cases s)
  case Nil
  with assms show ?thesis by simp
next
  case (Cons c cs)
  have p: "prefix old s \<longleftrightarrow> s = old"
    using assms(1) by (auto simp: prefix_def)
  have "str_replace old new cs = cs"
    by (rule str_replace_short) (use assms Cons in simp)
  then show ?thesis
    using assms p Cons by (simp add: str_replace_Cons)
qed

lemma md_replacer:
  "markdown_link_replacer rnd st mt =
     (md_key (rnd (calls st)),
      \<lparr>calls = calls st + 1, protected = AList.update (md_key (rnd (calls st))) mt (protected st)\<rparr>)"
  by (simp add: markdown_link_replacer_def md_key_def Let_def)

lemma re_sub_st_skip_all:
  assumes "\<And>c q t. c \<in> set xs \<Longrightarrow> m q (c # t) = None"
  shows "re_sub_st m r p xs st = (xs, st)"
  using re_sub_st_skip [of xs m r p "[]" st] assms by simp

lemma md_key_chars: "c \<in> set (md_key r) \<Longrightarrow> c = 0x5F \<or> is_alnum c"
  by (auto simp: md_key_def ascii_def is_alnum_def is_hex_def dest!: uuid_hex_is_hex)

lemma md_key_notin: "\<not> (c = 0x5F \<or> is_alnum c) \<Longrightarrow> c \<notin> set (md_key r)"
  using md_key_chars by blast

lemma key_char_ne:
  assumes "c = 0x5F \<or> is_alnum c"
  shows "c \<noteq> 0x3C" "c \<noteq> 0x21" "c \<noteq> 0x5B" "c \<noteq> 0x5C" "c \<noteq> 0xFF1F" "c \<noteq> 0xFF01"
    "c \<noteq> 0x3000" "c \<noteq> 0xB7" "c \<noteq> 0x2500" "c \<noteq> 0x2013" "c \<noteq> 0x2E" "c \<noteq> 0x3F"
  using assms by (auto simp: is_alnum_def)

lemma void_tags_no_lt:
  assumes "0x3C \<notin> set s"
  shows "convert_html_void_tags_to_xhtml s = s"
proof -
  have one: "re_sub (match_void_tag tag) (void_tag_replacer tag) s = s" for tag
    unfolding re_sub_def using assms
    by (intro re_sub_from_skip_all match_void_tag_first) auto
  have "foldl (\<lambda>text tag. re_sub (match_void_tag tag) (void_tag_replacer tag) text) s tags = s"
    for tags by (induction tags) (simp_all add: one)
  then show ?thesis by (simp add: convert_html_void_tags_to_xhtml_def)
qed

lemma md_key_escaped: "convert_escaped_halfwidth_to_fullwidth (md_key r) = md_key r"
  unfolding convert_escaped_halfwidth_to_fullwidth_def re_sub_def
  by (intro re_sub_from_skip_all match_escaped_first key_char_ne md_key_chars)

lemma md_key_specific: "convert_specific_symbols (md_key r) = md_key r"
  by (simp add: convert_specific_symbols_def ascii_def str_replace_absent md_key_notin is_alnum_def)

lemma single_alnum_underscore:
  "re_sub_from match_single_alnum to_fullwidth p (0x5F # ys)
     = 0x5F # re_sub_from match_single_alnum to_fullwidth (Some 0x5F) ys"
  by (simp add: re_sub_from_Cons match_single_alnum_first is_alnum_def)

lemma single_alnum_key:
  "re_sub_from match_single_alnum to_fullwidth p (md_key r @ post)
     = md_key r @ re_sub_from match_single_alnum to_fullwidth (Some 0x5F) post"
proof -
  let ?R = "re_sub_from match_single_alnum to_fullwidth"
  let ?h = "uuid_hex (uuid4 r)"
  have h: "?R (Some 0x5F) (?h @ 0x5F # 0x5F # post) = ?h @ 0x5F # 0x5F # ?R (Some 0x5F) post"
    by (simp add: hex_scan_alnum single_alnum_underscore)
  have l: "?R (Some 0x5F) (ascii ''LINK'' @ 0x5F # ?h @ 0x5F # 0x5F # post)
      = ascii ''LINK'' @ 0x5F # ?h @ 0x5F # 0x5F # ?R (Some 0x5F) post"
    using single_alnum_run [of "ascii ''LINK''" "Some 0x5F" "0x5F # ?h @ 0x5F # 0x5F # post"]
    by (simp add: ascii_def is_alnum_def single_alnum_underscore h)
  have m: "?R (Some 0x5F) (ascii ''MARKDOWN'' @ 0x5F # ascii ''LINK'' @ 0x5F # ?h @ 0x5F # 0x5F # post)
      = ascii ''MARKDOWN'' @ 0x5F # ascii ''LINK'' @ 0x5F # ?h @ 0x5F # 0x5F # ?R (Some 0x5F) post"
    using single_alnum_run [of "ascii ''MARKDOWN''" "Some 0x5F"
        "0x5F # ascii ''LINK'' @ 0x5F # ?h @ 0x5F # 0x5F # post"] l
    by (simp add: ascii_def is_alnum_def single_alnum_underscore)
  have k: "md_key r @ post
      = 0x5F # 0x5F # ascii ''MARKDOWN'' @ 0x5F # ascii ''LINK'' @ 0x5F # ?h @ 0x5F # 0x5F # post"
    by (simp add: md_key_def ascii_def)
  have k': "md_key r @ ?R (Some 0x5F) post
      = 0x5F # 0x5F # ascii ''MARKDOWN'' @ 0x5F # ascii ''LINK'' @ 0x5F # ?h @ 0x5F # 0x5F # ?R (Some 0x5F) post"
    by (simp add: md_key_def ascii_def)
  show ?thesis
    unfolding k k' single_alnum_underscore m ..
qed

lemma md_key_single_alnum: "convert_single_halfwidth_alnum_to_fullwidth (md_key r) = md_key r"
  using single_alnum_key [of None r "[]"]
  by (simp add: convert_single_halfwidth_alnum_to_fullwidth_def re_sub_def)

lemma md_key_question: "add_fullwidth_space_after_question_exclamation (md_key r) = md_key r"
  unfolding add_fullwidth_space_after_question_exclamation_def re_sub_def
  by (intro re_sub_from_skip_all match_question_exclamation_first key_char_ne md_key_chars)

lemma md_key_space: "remove_fullwidth_space_before_closing_quote (md_key r) = md_key r"
  unfolding remove_fullwidth_space_before_closing_quote_def re_sub_def
  by (intro re_sub_from_skip_all match_space_before_quote_first key_char_ne md_key_chars)

lemma md_key_void: "convert_html_void_tags_to_xhtml (md_key r) = md_key r"
  using key_char_ne(1) [OF md_key_chars] by (intro void_tags_no_lt) auto


lemmas md_key_stages = md_key_escaped md_key_specific md_key_single_alnum md_key_question
  md_key_space md_key_void

lemma length_md_key [simp]: "length (md_key r) = 50"
  by (simp add: md_key_def ascii_def)

lemma md_key_not_Nil [simp]: "md_key r \<noteq> []"
  using length_md_key [of r] by (simp del: length_md_key add: length_0_conv [symmetric])


section \<open>Two evaluations with placeholder keys\<close>

lemma process_text_unfold:
  "process_text rnd text =
     (case extract_protected_regions rnd
             (replace_tag_to_symbol (replace_br_tag (convert_img_to_markdown text))) of
        (b, prot) \<Rightarrow>
          restore_protected_regions
            (convert_html_void_tags_to_xhtml
              (remove_fullwidth_space_before_closing_quote
                (add_fullwidth_space_after_question_exclamation
                  (convert_single_halfwidth_alnum_to_fullwidth
                    (convert_specific_symbols
                      (convert_escaped_halfwidth_to_fullwidth b)))))) prot)"
  by (simp add: process_text_def Let_def)





lemma nested_stage3:
  "replace_tag_to_symbol (replace_br_tag (convert_img_to_markdown (ascii ''[![a](b)](c)'')))
     = ascii ''[![a](b)](c)''"
  by (simp add: eval)

lemma md_key_takeWhile:
  "\<not> (c = 0x5F \<or> is_alnum c) \<Longrightarrow> takeWhile (\<lambda>x. x \<noteq> c) (md_key r @ c # ys) = md_key r"
  "\<not> (c = 0x5F \<or> is_alnum c) \<Longrightarrow> dropWhile (\<lambda>x. x \<noteq> c) (md_key r @ c # ys) = c # ys"
  using md_key_notin [of c r]
  by (auto intro!: takeWhile_run dropWhile_run simp: list_all_iff)

lemma nested_extract:
  "extract_protected_regions rnd (ascii ''[![a](b)](c)'')
     = (md_key (rnd 1),
        AList.update (md_key (rnd 1)) (ascii ''['' @ md_key (rnd 0) @ ascii ''](c)'')
          [(md_key (rnd 0), ascii ''![a](b)'')])"
proof -
  have 1: "re_sub_st match_html_tag (tag_replacer rnd) None (ascii ''[![a](b)](c)'') st
      = (ascii ''[![a](b)](c)'', st)" for st
    by (simp add: ascii_def match_html_tag_def)
  have 2: "re_sub_st match_md_image (markdown_link_replacer rnd) None (ascii ''[![a](b)](c)'')
        \<lparr>calls = 0, protected = []\<rparr>
      = (ascii ''['' @ md_key (rnd 0) @ ascii ''](c)'',
         \<lparr>calls = 1, protected = [(md_key (rnd 0), ascii ''![a](b)'')]\<rparr>)"
    by (simp add: ascii_def match_md_image_def md_replacer)
  have m: "match_md_link None (0x5B # md_key (rnd 0) @ [0x5D, 0x28, 0x63, 0x29]) = Some 55"
    by (simp add: match_md_link_def md_key_takeWhile is_alnum_def)
  have 3: "re_sub_st match_md_link (markdown_link_replacer rnd) None
        (ascii ''['' @ md_key (rnd 0) @ ascii ''](c)'')
        \<lparr>calls = 1, protected = [(md_key (rnd 0), ascii ''![a](b)'')]\<rparr>
      = (md_key (rnd 1),
         \<lparr>calls = 2, protected = AList.update (md_key (rnd 1))
            (ascii ''['' @ md_key (rnd 0) @ ascii ''](c)'') [(md_key (rnd 0), ascii ''![a](b)'')]\<rparr>)"
    by (simp add: ascii_def m md_replacer)
  show ?thesis
    unfolding extract_protected_regions_def 1 2 3 prod.case by simp
qed

lemma nested_restore:
  "restore_protected_regions (md_key (rnd 1))
     (AList.update (md_key (rnd 1)) (ascii ''['' @ md_key (rnd 0) @ ascii ''](c)'')
          [(md_key (rnd 0), ascii ''![a](b)'')])
   = ascii ''['' @ md_key (rnd 0) @ ascii ''](c)''"
  by (simp add: str_replace_same_length)

lemma nested_example:
  "process_text rnd (ascii ''[![a](b)](c)'') = ascii ''['' @ md_key (rnd 0) @ ascii ''](c)''"
  by (simp only: process_text_unfold nested_stage3 nested_extract md_key_stages prod.case
      nested_restore)

section \<open>Image tags\<close>







lemma quoted_src_at_src: "quoted_src_at t v \<Longrightarrow> take 3 t = ascii ''src''"
  by (auto simp: quoted_src_at_def ascii_def)

lemma iprefix_src: "take 3 t = ascii ''src'' \<Longrightarrow> iprefix (ascii ''src'') t"
  by (cases t; cases "tl t"; cases "tl (tl t)") (auto simp: ascii_def icase_eq_def)

lemma quoted_src_at_iprefix: "quoted_src_at t v \<Longrightarrow> iprefix (ascii ''src'') t"
  by (rule iprefix_src) (rule quoted_src_at_src)




















text \<open>
  Tags outside the statement above: the first quoted text after the lower-case letters
  \<open>src\<close> is taken also where it belongs to another attribute, an upper-case \<open>SRC\<close> is not
  found although the tag name is matched in any case, and a \<open>src\<close> with an empty value is
  passed over for a later quoted text.
\<close>

lemma img_first_quoted_text_example:
  "convert_img_to_markdown (ascii ''<img data-src='' @ [0x22] @ ascii ''b.png'' @ [0x22]
       @ ascii '' src='' @ [0x22] @ ascii ''a.png'' @ [0x22] @ ascii ''>'') = ascii ''![](b.png)''
   \<and> convert_img_to_markdown (ascii ''<IMG SRC='' @ [0x22] @ ascii ''a.png'' @ [0x22] @ ascii ''>'')
       = ascii ''<IMG SRC='' @ [0x22] @ ascii ''a.png'' @ [0x22] @ ascii ''>''"
  by (simp add: eval)

lemma img_empty_then_later_src_example:
  "convert_img_to_markdown (ascii ''<img src='' @ [0x22, 0x22] @ ascii '' src='' @ [0x22]
       @ ascii ''a.png'' @ [0x22] @ ascii ''>'') = ascii ''![](a.png)''
   \<and> convert_img_to_markdown (ascii ''<img src='' @ [0x22, 0x22] @ ascii '' data-src='' @ [0x22]
       @ ascii ''x'' @ [0x22] @ ascii ''>'') = ascii ''![](x)''"
  by (simp add: eval)

section \<open>The escape table\<close>

text \<open>C4, as stated, fails: the table does not have 37 entries.\<close>

theorem escape_map_size_counterexample: "card (dom (map_of escape_map)) \<noteq> 37"
  by (simp add: escape_map_card)

text \<open>
  C4, as the code has it. Scanning from the left, a backslash followed by a symbol of
  \<open>!\<close> to \<open>/\<close>, \<open>:\<close> to \<open>@\<close>, \<open>[\<close> to \<open>`\<close> or \<open>{\<close> to \<open>~\<close> is replaced by the table's entry
  for the symbol, or by the symbol itself when the table has none, and every other character
  is copied. The table has 28 entries, all for symbols of that range; the symbols of the
  range without an entry are \<open>$\<close>, \<open>@\<close>, \<open>_\<close> and the backquote; an entry is the character
  0xFEE0 code points higher, except U+3008 and U+3009 for the angle brackets.
  \<open>process_text\<close> turns a backslash and \<open>(\<close> into U+FF08.
\<close>

theorem escaped_symbol_conversion:
  "(is_escapable c \<longrightarrow>
      convert_escaped_halfwidth_to_fullwidth (0x5C # c # rest) =
        (case map_of escape_map c of Some v \<Rightarrow> v | None \<Rightarrow> [c])
          @ convert_escaped_halfwidth_to_fullwidth rest)
   \<and> (\<not> (x = 0x5C \<and> rest' \<noteq> [] \<and> is_escapable (hd rest')) \<longrightarrow>
        convert_escaped_halfwidth_to_fullwidth (x # rest') =
          x # convert_escaped_halfwidth_to_fullwidth rest')
   \<and> convert_escaped_halfwidth_to_fullwidth [] = []
   \<and> card (dom (map_of escape_map)) = 28
   \<and> (is_escapable c \<longrightarrow> (map_of escape_map c = None) = (c \<in> {0x24, 0x40, 0x5F, 0x60}))
   \<and> (map_of escape_map d = Some w \<longrightarrow>
        is_escapable d
        \<and> w = [if d = 0x3C then 0x3008 else if d = 0x3E then 0x3009 else d + 0xFEE0])
   \<and> process_text rnd [0x5C, 0x28] = [0xFF08]"
proof (intro conjI impI)
  show "process_text rnd [0x5C, 0x28] = [0xFF08]"
    by (simp add: eval)
qed (simp_all add: convert_escaped_match convert_escaped_copy convert_escaped_Nil escape_map_card
    escape_map_unmapped escape_map_values)

theorem escaped_symbol_conversion_witness:
  "convert_escaped_halfwidth_to_fullwidth [0x5C, 0x5F, 0x41] = [0x5F, 0x41]
   \<and> convert_escaped_halfwidth_to_fullwidth [0x5C, 0x3C] = [0x3008]
   \<and> map_of escape_map 0x5F = None"
proof -
  have e: "is_escapable 0x5F" "is_escapable 0x3C" by (simp_all add: is_escapable_def)
  have m: "map_of escape_map 0x3C = Some [0x3008]" "map_of escape_map 0x5F = None"
    by (simp_all add: escape_map_def)
  have x: "\<not> (0x41 = (0x5C::nat) \<and> ([]::ustr) \<noteq> [] \<and> is_escapable (hd []))" by simp
  from escaped_symbol_conversion [where c = "0x5F" and rest = "[0x41]" and x = "0x41"
      and rest' = "[]" and d = "0x3C" and w = "[0x3008]"]
    escaped_symbol_conversion [where c = "0x3C" and rest = "[]" and x = "0x41"
      and rest' = "[]" and d = "0x3C" and w = "[0x3008]"] e m x
  show ?thesis by simp
qed

section \<open>No angle brackets after the substitution\<close>

lemma set_str_replace: "old \<noteq> [] \<Longrightarrow> set (str_replace old new s) \<subseteq> set s \<union> set new"
proof (induction s rule: length_induct)
  case (1 s)
  show ?case
  proof (cases s)
    case Nil
    with 1 show ?thesis by simp
  next
    case (Cons c cs)
    have a: "set (str_replace old new cs) \<subseteq> set cs \<union> set new"
      using 1 Cons by simp
    have "length (drop (length old) (c # cs)) < length s"
      using 1(2) Cons by (cases old) simp_all
    then have b: "set (str_replace old new (drop (length old) (c # cs)))
        \<subseteq> set (drop (length old) (c # cs)) \<union> set new"
      using 1 by blast
    have "set (drop (length old) (c # cs)) \<subseteq> set (c # cs)" by (rule set_drop_subset)
    with a b show ?thesis
      using 1(2) Cons by (auto simp: str_replace_Cons)
  qed
qed

lemma str_replace_char_gone:
  "c \<notin> set new \<Longrightarrow> c \<notin> set (str_replace [c] new s)"
proof (induction s)
  case Nil
  then show ?case by simp
next
  case (Cons x xs)
  then show ?case by (auto simp: str_replace_Cons)
qed

lemma no_angle_replace_tag: "no_angle (replace_tag_to_symbol s)"
proof -
  let ?a = "str_replace (ascii ''<'') [0x3008] s"
  have 1: "0x3C \<notin> set ?a"
    using str_replace_char_gone [where c = "0x3C" and new = "[0x3008]" and s = s] by (simp add: ascii_def)
  have 2: "0x3E \<notin> set (str_replace (ascii ''>'') [0x3009, 0xFF1F] ?a)"
    using str_replace_char_gone [where c = "0x3E" and new = "[0x3009, 0xFF1F]" and s = ?a] by (simp add: ascii_def)
  have "set (str_replace (ascii ''>'') [0x3009, 0xFF1F] ?a) \<subseteq> set ?a \<union> set [0x3009, 0xFF1F]"
    by (rule set_str_replace) (simp add: ascii_def)
  with 1 have "0x3C \<notin> set (str_replace (ascii ''>'') [0x3009, 0xFF1F] ?a)" by auto
  with 2 show ?thesis by (simp add: no_angle_def replace_tag_to_symbol_def)
qed

lemma re_sub_st_pres:
  assumes "\<And>st t. list_all P t \<Longrightarrow> list_all P (fst (r st t))"
  shows "list_all P s \<Longrightarrow> list_all P (fst (re_sub_st m r p s st))"
proof (induction s arbitrary: p st rule: length_induct)
  case (1 s)
  show ?case
  proof (cases s)
    case Nil
    then show ?thesis by simp
  next
    case (Cons c cs)
    have cs: "list_all P (fst (re_sub_st m r q cs st'))" for q st'
      using 1 Cons by simp
    show ?thesis
    proof (cases "m p (c # cs)")
      case None
      then show ?thesis using Cons cs [of "Some c" st] 1(2) by (auto split: prod.split)
    next
      case (Some n)
      show ?thesis
      proof (cases "n = 0")
        case True
        then show ?thesis using Some Cons cs [of "Some c" st] 1(2) by (auto split: prod.split)
      next
        case False
        have "list_all P (take n (c # cs) @ drop n (c # cs))"
          using 1(2) Cons by (simp only: append_take_drop_id)
        then have t: "list_all P (take n (c # cs))" and d: "list_all P (drop n (c # cs))"
          by (simp_all only: list_all_append)
        have "length (drop n (c # cs)) < length s" using False Cons by simp
        then have rec: "list_all P (fst (re_sub_st m r q (drop n (c # cs)) st'))" for q st'
          using 1(1) d by blast
        have rp: "list_all P (fst (r st (take n (c # cs))))" using assms t by blast
        obtain rep st1 where r: "r st (take n (c # cs)) = (rep, st1)" by (cases "r st (take n (c # cs))")
        obtain out st2 where o: "re_sub_st m r (Some (last (take n (c # cs)))) (drop n (c # cs)) st1 = (out, st2)"
          by (cases "re_sub_st m r (Some (last (take n (c # cs)))) (drop n (c # cs)) st1")
        have "list_all P rep" using rp r by simp
        moreover have "list_all P out"
          using rec [of "Some (last (take n (c # cs)))" st1] o by simp
        ultimately show ?thesis using Some False Cons r o by simp
      qed
    qed
  qed
qed

lemma re_sub_from_pres:
  assumes "\<And>t. list_all P t \<Longrightarrow> list_all P (r t)" and "list_all P s"
  shows "list_all P (re_sub_from m r p s)"
  unfolding re_sub_from_def using assms by (intro re_sub_st_pres) simp_all


lemma no_angle_iff: "no_angle s = list_all (\<lambda>c. c \<noteq> 0x3C \<and> c \<noteq> 0x3E) s"
  by (auto simp: no_angle_def list_all_iff)

lemma html_key_chars: "c \<in> set (html_key r) \<Longrightarrow> c = 0x5F \<or> is_alnum c"
  by (auto simp: html_key_def ascii_def is_alnum_def is_hex_def dest!: uuid_hex_is_hex)

lemma no_angle_keys: "no_angle (md_key r)" "no_angle (html_key r)"
proof -
  have "c \<notin> set (md_key r)" "c \<notin> set (html_key r)" if "c = 0x3C \<or> c = 0x3E" for c
    using that md_key_chars [of c r] html_key_chars [of c r] by (auto simp: is_alnum_def)
  then show "no_angle (md_key r)" "no_angle (html_key r)"
    by (simp_all add: no_angle_def)
qed

lemma tag_replacer_key: "fst (tag_replacer rnd st t) = html_key (rnd (calls st))"
  by (simp add: tag_replacer_def html_key_def Let_def)

lemma no_angle_extract:
  assumes "no_angle b"
  shows "no_angle (fst (extract_protected_regions rnd b))"
proof -
  let ?P = "\<lambda>c::nat. c \<noteq> 0x3C \<and> c \<noteq> 0x3E"
  have t: "list_all ?P (fst (tag_replacer rnd st t))" for st t
    using no_angle_keys(2) by (simp add: tag_replacer_key no_angle_iff)
  have m: "list_all ?P (fst (markdown_link_replacer rnd st t))" for st t
    using no_angle_keys(1) by (simp add: md_replacer no_angle_iff)
  obtain b1 s1 where 1: "re_sub_st match_html_tag (tag_replacer rnd) None b \<lparr>calls = 0, protected = []\<rparr> = (b1, s1)"
    by (cases "re_sub_st match_html_tag (tag_replacer rnd) None b \<lparr>calls = 0, protected = []\<rparr>")
  obtain b2 s2 where 2: "re_sub_st match_md_image (markdown_link_replacer rnd) None b1 s1 = (b2, s2)"
    by (cases "re_sub_st match_md_image (markdown_link_replacer rnd) None b1 s1")
  obtain b3 s3 where 3: "re_sub_st match_md_link (markdown_link_replacer rnd) None b2 s2 = (b3, s3)"
    by (cases "re_sub_st match_md_link (markdown_link_replacer rnd) None b2 s2")
  have "list_all ?P b" using assms by (simp add: no_angle_iff)
  then have "list_all ?P b1"
    using re_sub_st_pres [of ?P "tag_replacer rnd" b match_html_tag None "\<lparr>calls = 0, protected = []\<rparr>"] t 1
    by simp
  then have "list_all ?P b2"
    using re_sub_st_pres [of ?P "markdown_link_replacer rnd" b1 match_md_image None s1] m 2
    by simp
  then have "list_all ?P b3"
    using re_sub_st_pres [of ?P "markdown_link_replacer rnd" b2 match_md_link None s2] m 3
    by simp
  then show ?thesis
    by (simp add: extract_protected_regions_def 1 2 3 no_angle_iff)
qed

lemma no_angle_escaped_replacer:
  assumes "list_all (\<lambda>c. c \<noteq> 0x3C \<and> c \<noteq> 0x3E) t"
  shows "list_all (\<lambda>c. c \<noteq> 0x3C \<and> c \<noteq> 0x3E) (escaped_replacer t)"
proof (cases "map_of escape_map (hd (drop 1 t))")
  case None
  have "list_all (\<lambda>c. c \<noteq> 0x3C \<and> c \<noteq> 0x3E) (take 1 t @ drop 1 t)"
    using assms by (simp only: append_take_drop_id)
  then have "list_all (\<lambda>c. c \<noteq> 0x3C \<and> c \<noteq> 0x3E) (drop 1 t)"
    by (simp only: list_all_append)
  with None show ?thesis by (simp add: escaped_replacer_def)
next
  case (Some v)
  from escape_map_values [OF Some] have "list_all (\<lambda>c. c \<noteq> 0x3C \<and> c \<noteq> 0x3E) v"
    by (auto split: if_splits)
  with Some show ?thesis by (simp add: escaped_replacer_def)
qed

lemma no_angle_escaped: "no_angle b \<Longrightarrow> no_angle (convert_escaped_halfwidth_to_fullwidth b)"
  unfolding no_angle_iff convert_escaped_halfwidth_to_fullwidth_def re_sub_def
  by (intro re_sub_from_pres no_angle_escaped_replacer)

lemma no_angle_str_replace:
  "old \<noteq> [] \<Longrightarrow> no_angle new \<Longrightarrow> no_angle b \<Longrightarrow> no_angle (str_replace old new b)"
  using set_str_replace [of old new b] by (auto simp: no_angle_def)

lemma no_angle_specific:
  assumes "no_angle b"
  shows "no_angle (convert_specific_symbols b)"
  unfolding convert_specific_symbols_def Let_def
  by (intro no_angle_str_replace assms) (simp_all add: ascii_def no_angle_def)

lemma no_angle_single: "no_angle b \<Longrightarrow> no_angle (convert_single_halfwidth_alnum_to_fullwidth b)"
  unfolding no_angle_iff convert_single_halfwidth_alnum_to_fullwidth_def re_sub_def
  by (intro re_sub_from_pres) (simp_all add: to_fullwidth_def)

lemma no_angle_question:
  "no_angle b \<Longrightarrow> no_angle (add_fullwidth_space_after_question_exclamation b)"
  unfolding no_angle_iff add_fullwidth_space_after_question_exclamation_def re_sub_def
  by (intro re_sub_from_pres) simp_all

lemma no_angle_space:
  "no_angle b \<Longrightarrow> no_angle (remove_fullwidth_space_before_closing_quote b)"
  unfolding no_angle_iff remove_fullwidth_space_before_closing_quote_def re_sub_def
  by (intro re_sub_from_pres) simp_all

lemma void_tags_no_angle: "no_angle b \<Longrightarrow> convert_html_void_tags_to_xhtml b = b"
  by (rule void_tags_no_lt) (simp add: no_angle_def)

lemma html_tag_no_match: "no_angle b \<Longrightarrow> match_html_tag q (drop i b) = None"
proof (cases "drop i b")
  case Nil
  then show ?thesis by (simp add: match_html_tag_def)
next
  case (Cons c t)
  assume "no_angle b"
  moreover have "c \<in> set b" using Cons in_set_dropD [of c i b] by simp
  ultimately have "c \<noteq> 0x3C" by (auto simp: no_angle_def)
  then show ?thesis using Cons by (simp add: match_html_tag_first)
qed

lemma html_tag_sub_id:
  "no_angle b \<Longrightarrow> re_sub_st match_html_tag (tag_replacer rnd) None b st = (b, st)"
  by (intro re_sub_st_skip_all match_html_tag_first) (auto simp: no_angle_def)

text \<open>
  C9. In \<open>process_text\<close>, whatever the input and the uuid draws, the buffer handed to
  \<open>extract_protected_regions\<close> and every buffer after it up to the one returned by
  \<open>convert_html_void_tags_to_xhtml\<close> is free of ASCII \<open><\<close> and \<open>>\<close>; so the pattern of
  HTML tags matches at no position of the buffer handed to \<open>extract_protected_regions\<close>,
  its substitution leaves buffer and dictionary as they are, and
  \<open>convert_html_void_tags_to_xhtml\<close> returns its input. The last conjunct says that these
  are the buffers of \<open>process_text\<close>.
\<close>

theorem angle_brackets_dead_after_substitution:
  "(let b3 = replace_tag_to_symbol (replace_br_tag (convert_img_to_markdown s));
        b4 = fst (extract_protected_regions rnd b3);
        b5 = convert_escaped_halfwidth_to_fullwidth b4;
        b6 = convert_specific_symbols b5;
        b7 = convert_single_halfwidth_alnum_to_fullwidth b6;
        b8 = add_fullwidth_space_after_question_exclamation b7;
        b9 = remove_fullwidth_space_before_closing_quote b8;
        b10 = convert_html_void_tags_to_xhtml b9
    in no_angle b3 \<and> no_angle b4 \<and> no_angle b5 \<and> no_angle b6 \<and> no_angle b7 \<and> no_angle b8
       \<and> no_angle b9 \<and> no_angle b10
       \<and> (\<forall>i q. match_html_tag q (drop i b3) = None)
       \<and> re_sub_st match_html_tag (tag_replacer rnd) None b3 \<lparr>calls = 0, protected = []\<rparr>
            = (b3, \<lparr>calls = 0, protected = []\<rparr>)
       \<and> b10 = b9
       \<and> process_text rnd s = restore_protected_regions b10 (snd (extract_protected_regions rnd b3)))"
proof -
  define b3 where "b3 = replace_tag_to_symbol (replace_br_tag (convert_img_to_markdown s))"
  define b4 where "b4 = fst (extract_protected_regions rnd b3)"
  define b5 where "b5 = convert_escaped_halfwidth_to_fullwidth b4"
  define b6 where "b6 = convert_specific_symbols b5"
  define b7 where "b7 = convert_single_halfwidth_alnum_to_fullwidth b6"
  define b8 where "b8 = add_fullwidth_space_after_question_exclamation b7"
  define b9 where "b9 = remove_fullwidth_space_before_closing_quote b8"
  define b10 where "b10 = convert_html_void_tags_to_xhtml b9"
  have 3: "no_angle b3" unfolding b3_def by (rule no_angle_replace_tag)
  then have 4: "no_angle b4" unfolding b4_def by (rule no_angle_extract)
  then have 5: "no_angle b5" unfolding b5_def by (rule no_angle_escaped)
  then have 6: "no_angle b6" unfolding b6_def by (rule no_angle_specific)
  then have 7: "no_angle b7" unfolding b7_def by (rule no_angle_single)
  then have 8: "no_angle b8" unfolding b8_def by (rule no_angle_question)
  then have 9: "no_angle b9" unfolding b9_def by (rule no_angle_space)
  then have e: "b10 = b9" unfolding b10_def by (rule void_tags_no_angle)
  have m: "\<forall>i q. match_html_tag q (drop i b3) = None"
    using 3 by (simp add: html_tag_no_match)
  have r: "re_sub_st match_html_tag (tag_replacer rnd) None b3 \<lparr>calls = 0, protected = []\<rparr>
            = (b3, \<lparr>calls = 0, protected = []\<rparr>)"
    using 3 by (rule html_tag_sub_id)
  have p: "process_text rnd s = restore_protected_regions b10 (snd (extract_protected_regions rnd b3))"
    unfolding process_text_unfold b10_def b9_def b8_def b7_def b6_def b5_def b4_def b3_def
    by (simp add: case_prod_beta)
  show ?thesis
    unfolding Let_def
    using 3 4 5 6 7 8 9 e m r p
    unfolding b10_def b9_def b8_def b7_def b6_def b5_def b4_def b3_def
    by simp
qed

section \<open>An image inside a link\<close>

lemma last_uuid_hex: "last (uuid_hex w) = hex_digit (unat (w AND 0xF))"
proof -
  have "[0..<32] = [0..<31] @ [31::nat]"
    using upt_Suc_append [of 0 31] by simp
  then show ?thesis by (simp add: uuid_hex_def)
qed

lemma uuid_hex_0_1: "uuid_hex (uuid4 0) \<noteq> uuid_hex (uuid4 1)"
proof
  assume "uuid_hex (uuid4 0) = uuid_hex (uuid4 1)"
  then have "last (uuid_hex (uuid4 0)) = last (uuid_hex (uuid4 1))" by simp
  then show False by (simp add: last_uuid_hex uuid4_def hex_digit_def)
qed

lemma md_key_eq_iff: "md_key r = md_key r' \<longleftrightarrow> uuid_hex (uuid4 r) = uuid_hex (uuid4 r')"
  by (simp add: md_key_def)

lemma sublist_same_length: "sublist xs ys \<Longrightarrow> length xs = length ys \<Longrightarrow> xs = ys"
  by (auto simp: sublist_def)

lemma nested_image_step:
  "re_sub_st match_md_image (markdown_link_replacer rnd) None (ascii ''[![a](b)](c)'')
        \<lparr>calls = 0, protected = []\<rparr>
      = (ascii ''['' @ md_key (rnd 0) @ ascii ''](c)'',
         \<lparr>calls = 1, protected = [(md_key (rnd 0), ascii ''![a](b)'')]\<rparr>)"
  by (simp add: ascii_def match_md_image_def md_replacer)

lemma nested_output_no_bang: "0x21 \<notin> set (ascii ''['' @ md_key (rnd 0) @ ascii ''](c)'')"
  by (simp add: ascii_def md_key_notin is_alnum_def)

text \<open>
  C1 at the text \<open>[![a](b)](c)\<close>, an image inside a link. The protect stage extracts the
  image span \<open>![a](b)\<close> under the key of the first uuid draw; the link pattern then takes the
  whole text, that key included, under a second key. \<open>restore_protected_regions\<close> goes
  through the dictionary in insertion order, so the first key is looked for before the second
  one has been put back: whatever the draws, the result is \<open>[\<close>, the first key, \<open>](c)\<close>,
  and the image span is not in it.
\<close>

theorem nested_image_not_restored:
  "re_sub_st match_md_image (markdown_link_replacer rnd) None
       (replace_tag_to_symbol (replace_br_tag (convert_img_to_markdown (ascii ''[![a](b)](c)''))))
       \<lparr>calls = 0, protected = []\<rparr>
     = (ascii ''['' @ md_key (rnd 0) @ ascii ''](c)'',
        \<lparr>calls = 1, protected = [(md_key (rnd 0), ascii ''![a](b)'')]\<rparr>)
   \<and> process_text rnd (ascii ''[![a](b)](c)'') = ascii ''['' @ md_key (rnd 0) @ ascii ''](c)''
   \<and> \<not> sublist (ascii ''![a](b)'') (process_text rnd (ascii ''[![a](b)](c)''))"
proof (intro conjI)
  show "re_sub_st match_md_image (markdown_link_replacer rnd) None
       (replace_tag_to_symbol (replace_br_tag (convert_img_to_markdown (ascii ''[![a](b)](c)''))))
       \<lparr>calls = 0, protected = []\<rparr>
     = (ascii ''['' @ md_key (rnd 0) @ ascii ''](c)'',
        \<lparr>calls = 1, protected = [(md_key (rnd 0), ascii ''![a](b)'')]\<rparr>)"
    unfolding nested_stage3 by (rule nested_image_step)
  show "process_text rnd (ascii ''[![a](b)](c)'') = ascii ''['' @ md_key (rnd 0) @ ascii ''](c)''"
    by (rule nested_example)
  show "\<not> sublist (ascii ''![a](b)'') (process_text rnd (ascii ''[![a](b)](c)''))"
  proof
    assume "sublist (ascii ''![a](b)'') (process_text rnd (ascii ''[![a](b)](c)''))"
    then have "set (ascii ''![a](b)'') \<subseteq> set (ascii ''['' @ md_key (rnd 0) @ ascii ''](c)'')"
      unfolding nested_example by (rule set_mono_sublist)
    moreover have "0x21 \<in> set (ascii ''![a](b)'')" by (simp add: ascii_def)
    ultimately show False using nested_output_no_bang [of rnd] by blast
  qed
qed

text \<open>
  C2 at the same text: two runs whose first uuid draws give different hexadecimal strings
  return different results.
\<close>

theorem process_text_depends_on_uuid:
  "uuid_hex (uuid4 (rnd 0)) \<noteq> uuid_hex (uuid4 (rnd' 0)) \<longrightarrow>
     process_text rnd (ascii ''[![a](b)](c)'') \<noteq> process_text rnd' (ascii ''[![a](b)](c)'')"
  by (simp add: nested_example md_key_eq_iff)

theorem process_text_depends_on_uuid_witness:
  "process_text (\<lambda>n. 0) (ascii ''[![a](b)](c)'') \<noteq> process_text (\<lambda>n. 1) (ascii ''[![a](b)](c)'')"
  using process_text_depends_on_uuid [of "\<lambda>n. 0" "\<lambda>n. 1"] uuid_hex_0_1 by simp

text \<open>
  C3 at the same text: the key of the image is a key of the dictionary, the buffer handed to
  \<open>restore_protected_regions\<close> is the key of the link alone, and the key of the image does
  not occur in it unless both draws give the same string.
\<close>

theorem nested_key_missing_from_restore_buffer:
  "(let b3 = replace_tag_to_symbol (replace_br_tag (convert_img_to_markdown (ascii ''[![a](b)](c)'')));
        b4 = fst (extract_protected_regions rnd b3);
        prot = snd (extract_protected_regions rnd b3);
        b10 = convert_html_void_tags_to_xhtml
               (remove_fullwidth_space_before_closing_quote
                 (add_fullwidth_space_after_question_exclamation
                   (convert_single_halfwidth_alnum_to_fullwidth
                     (convert_specific_symbols
                       (convert_escaped_halfwidth_to_fullwidth b4)))))
    in md_key (rnd 0) \<in> fst ` set prot
       \<and> b10 = md_key (rnd 1)
       \<and> (uuid_hex (uuid4 (rnd 0)) \<noteq> uuid_hex (uuid4 (rnd 1)) \<longrightarrow> \<not> sublist (md_key (rnd 0)) b10)
       \<and> process_text rnd (ascii ''[![a](b)](c)'') = restore_protected_regions b10 prot)"
proof -
  have k: "md_key (rnd 0) \<in> fst ` set (AList.update (md_key (rnd 1))
      (ascii ''['' @ md_key (rnd 0) @ ascii ''](c)'') [(md_key (rnd 0), ascii ''![a](b)'')])"
    by simp
  have s: "\<not> sublist (md_key (rnd 0)) (md_key (rnd 1))"
    if "uuid_hex (uuid4 (rnd 0)) \<noteq> uuid_hex (uuid4 (rnd 1))"
    using that sublist_same_length [of "md_key (rnd 0)" "md_key (rnd 1)"]
    by (auto simp: md_key_eq_iff)
  show ?thesis
    unfolding Let_def nested_stage3 nested_extract fst_conv snd_conv md_key_stages nested_restore
    using k s nested_example [of rnd] by simp
qed

theorem nested_key_missing_from_restore_buffer_witness:
  "\<not> sublist (md_key 0) (md_key 1)"
proof -
  have "uuid_hex (uuid4 ((\<lambda>n. word_of_nat n) 0)) \<noteq> uuid_hex (uuid4 ((\<lambda>n. word_of_nat n) 1))"
    using uuid_hex_0_1 by simp
  with nested_key_missing_from_restore_buffer [of "\<lambda>n. word_of_nat n"]
  show ?thesis
    by (auto simp: Let_def)
qed

section \<open>Keys inside a buffer\<close>

text \<open>
  The stages between protection and restoration keep an occurrence of a key of a Markdown
  span wherever it stands in a buffer: a match of their patterns never takes a character of
  the key, except that a backslash before the key takes its first underscore and gives it
  back, the underscore having no entry in the escape table.
\<close>

lemma md_key_Cons: "md_key r = 0x5F # tl (md_key r)"
  by (simp add: md_key_def ascii_def)

lemma escaped_keeps_key:
  "\<exists>pre' post'. re_sub_from match_escaped escaped_replacer p (pre @ md_key r @ post)
      = pre' @ md_key r @ post'"
proof (induction pre arbitrary: p rule: length_induct)
  case (1 pre)
  let ?R = "re_sub_from match_escaped escaped_replacer"
  have key: "?R q (md_key r @ post) = md_key r @ ?R (Some (last (md_key r))) post" for q
    using re_sub_from_skip [of "md_key r" match_escaped escaped_replacer q post]
    by (simp add: match_escaped_first key_char_ne md_key_chars)
  show ?case
  proof (cases pre)
    case Nil
    then show ?thesis using key [of p] by (metis append_Nil)
  next
    case (Cons c cs)
    show ?thesis
    proof (cases "match_escaped p (pre @ md_key r @ post)")
      case None
      from 1 Cons obtain a b where "?R (Some c) (cs @ md_key r @ post) = a @ md_key r @ b"
        by (metis length_Cons lessI)
      then have "?R p (pre @ md_key r @ post) = (c # a) @ md_key r @ b"
        using None Cons by (simp add: re_sub_from_Cons)
      then show ?thesis by blast
    next
      case (Some n)
      then have n: "n = 2" and c: "c = 0x5C"
        using Cons by (auto simp: match_escaped_def split: list.splits if_splits)
      show ?thesis
      proof (cases cs)
        case Nil
        obtain k where k: "md_key r = 0x5F # k" using md_key_Cons by blast
        have kc: "c \<in> set k \<Longrightarrow> c = 0x5F \<or> is_alnum c" for c
          using md_key_chars [of c r] k by simp
        have tk: "?R (Some 0x5F) (k @ post)
            = k @ ?R (if k = [] then Some 0x5F else Some (last k)) post"
          by (rule re_sub_from_skip) (simp add: match_escaped_first key_char_ne kc)
        have e: "pre @ md_key r @ post = 0x5C # 0x5F # k @ post"
          using \<open>pre = c # cs\<close> Nil c k by simp
        have "?R p (pre @ md_key r @ post)
            = escaped_replacer [0x5C, 0x5F] @ ?R (Some 0x5F) (k @ post)"
          unfolding e by (simp add: re_sub_from_Cons match_escaped_def is_escapable_def)
        also have "escaped_replacer [0x5C, 0x5F] = [0x5F]"
          by (simp add: escaped_replacer_def escape_map_def)
        finally have "?R p (pre @ md_key r @ post)
            = [] @ md_key r @ ?R (if k = [] then Some 0x5F else Some (last k)) post"
          using tk k by simp
        then show ?thesis by blast
      next
        case (Cons d ds)
        note cs = Cons
        from 1 \<open>pre = c # cs\<close> cs obtain a b where
          ih: "?R (Some d) (ds @ md_key r @ post) = a @ md_key r @ b"
          by (metis length_Cons lessI less_SucI)
        have "?R p (pre @ md_key r @ post)
            = escaped_replacer [c, d] @ ?R (Some d) (ds @ md_key r @ post)"
          using Some n \<open>pre = c # cs\<close> cs by (simp add: re_sub_from_Cons)
        then have "?R p (pre @ md_key r @ post) = (escaped_replacer [c, d] @ a) @ md_key r @ b"
          using ih by simp
        then show ?thesis by blast
      qed
    qed
  qed
qed

lemma str_replace_keeps_key:
  assumes "old \<noteq> []" and "\<And>c. c \<in> set old \<Longrightarrow> \<not> (c = 0x5F \<or> is_alnum c)"
  shows "\<exists>pre' post'. str_replace old new (pre @ md_key r @ post) = pre' @ md_key r @ post'"
proof (induction pre rule: length_induct)
  case (1 pre)
  have hd: "hd old \<notin> set (md_key r)"
    using assms md_key_chars [of "hd old" r] by (cases old) auto
  show ?case
  proof (cases pre)
    case Nil
    then show ?thesis
      using str_replace_skip [OF assms(1) hd, of new post] by (metis append_Nil)
  next
    case (Cons c cs)
    show ?thesis
    proof (cases "prefix old (pre @ md_key r @ post)")
      case False
      from 1 Cons obtain a b where "str_replace old new (cs @ md_key r @ post) = a @ md_key r @ b"
        by (metis length_Cons lessI)
      then have "str_replace old new (pre @ md_key r @ post) = (c # a) @ md_key r @ b"
        using False Cons assms(1) by (simp add: str_replace_Cons)
      then show ?thesis by blast
    next
      case True
      have "prefix old pre"
      proof (rule ccontr)
        assume np: "\<not> prefix old pre"
        from True obtain us where us: "old = pre @ us" "prefix us (md_key r @ post)"
          using np by (auto simp: prefix_append)
        with np have "us \<noteq> []" by auto
        moreover obtain k where "md_key r = 0x5F # k" using md_key_Cons by blast
        ultimately have "hd us = 0x5F"
          using us(2) by (cases us) simp_all
        moreover have "hd us \<in> set old" using us(1) \<open>us \<noteq> []\<close> by simp
        ultimately show False using assms(2) by blast
      qed
      then have le: "length old \<le> length pre" by (rule prefix_length_le)
      then have dr: "drop (length old) (pre @ md_key r @ post)
          = drop (length old) pre @ md_key r @ post" by simp
      have "length (drop (length old) pre) < length pre"
        using assms(1) Cons by simp
      with 1 obtain a b where
        "str_replace old new (drop (length old) pre @ md_key r @ post) = a @ md_key r @ b"
        by blast
      then have "str_replace old new (pre @ md_key r @ post) = (new @ a) @ md_key r @ b"
        using True Cons assms(1) dr by (simp add: str_replace_Cons)
      then show ?thesis by blast
    qed
  qed
qed

lemma re_sub_from_prefix_single:
  assumes "\<And>q t. m q t = None \<or> m q t = Some 1"
  shows "\<exists>out. re_sub_from m r p (xs @ ys)
      = out @ re_sub_from m r (if xs = [] then p else Some (last xs)) ys"
proof (induction xs arbitrary: p)
  case Nil
  then show ?case by simp
next
  case (Cons c cs)
  from Cons [of "Some c"] obtain out where
    o: "re_sub_from m r (Some c) (cs @ ys)
      = out @ re_sub_from m r (if cs = [] then Some c else Some (last cs)) ys" by blast
  from assms [of p "c # cs @ ys"] show ?case
  proof
    assume "m p (c # cs @ ys) = None"
    then have "re_sub_from m r p ((c # cs) @ ys)
        = (c # out) @ re_sub_from m r (if c # cs = [] then p else Some (last (c # cs))) ys"
      using o by (simp add: re_sub_from_Cons)
    then show ?thesis by blast
  next
    assume "m p (c # cs @ ys) = Some 1"
    then have "re_sub_from m r p ((c # cs) @ ys)
        = (r [c] @ out) @ re_sub_from m r (if c # cs = [] then p else Some (last (c # cs))) ys"
      using o by (simp add: re_sub_from_Cons)
    then show ?thesis by blast
  qed
qed

lemma match_single_alnum_one: "match_single_alnum q t = None \<or> match_single_alnum q t = Some 1"
  by (simp add: match_single_alnum_def split: list.split)

lemma match_question_exclamation_one:
  "match_question_exclamation q t = None \<or> match_question_exclamation q t = Some 1"
  by (simp add: match_question_exclamation_def split: list.split)

lemma match_space_before_quote_one:
  "match_space_before_quote q t = None \<or> match_space_before_quote q t = Some 1"
  by (simp add: match_space_before_quote_def split: list.split)

lemma single_alnum_keeps_key:
  "\<exists>pre' post'. re_sub_from match_single_alnum to_fullwidth p (pre @ md_key r @ post)
      = pre' @ md_key r @ post'"
  using re_sub_from_prefix_single [of match_single_alnum to_fullwidth p pre "md_key r @ post",
      OF match_single_alnum_one]
  by (auto simp: single_alnum_key)

lemma question_keeps_key:
  "\<exists>pre' post'. re_sub_from match_question_exclamation f p (pre @ md_key r @ post)
      = pre' @ md_key r @ post'"
proof -
  have "re_sub_from match_question_exclamation f q (md_key r @ post)
      = md_key r @ re_sub_from match_question_exclamation f (Some (last (md_key r))) post" for q
    using re_sub_from_skip [of "md_key r" match_question_exclamation f q post]
    by (simp add: match_question_exclamation_first key_char_ne md_key_chars)
  then show ?thesis
    using re_sub_from_prefix_single [of match_question_exclamation f p pre "md_key r @ post",
        OF match_question_exclamation_one]
    by auto
qed

lemma space_keeps_key:
  "\<exists>pre' post'. re_sub_from match_space_before_quote f p (pre @ md_key r @ post)
      = pre' @ md_key r @ post'"
proof -
  have "re_sub_from match_space_before_quote f q (md_key r @ post)
      = md_key r @ re_sub_from match_space_before_quote f (Some (last (md_key r))) post" for q
    using re_sub_from_skip [of "md_key r" match_space_before_quote f q post]
    by (simp add: match_space_before_quote_first key_char_ne md_key_chars)
  then show ?thesis
    using re_sub_from_prefix_single [of match_space_before_quote f p pre "md_key r @ post",
        OF match_space_before_quote_one]
    by auto
qed

text \<open>Each stage keeps an occurrence of a key.\<close>

lemma sublist_escaped:
  "sublist (md_key r) b \<Longrightarrow> sublist (md_key r) (convert_escaped_halfwidth_to_fullwidth b)"
  unfolding sublist_def convert_escaped_halfwidth_to_fullwidth_def re_sub_def
  using escaped_keeps_key by blast

lemma sublist_str_replace:
  assumes "old \<noteq> []" and "\<And>c. c \<in> set old \<Longrightarrow> \<not> (c = 0x5F \<or> is_alnum c)"
    and "sublist (md_key r) b"
  shows "sublist (md_key r) (str_replace old new b)"
  using assms(3) str_replace_keeps_key [OF assms(1,2)] unfolding sublist_def by blast

lemma sublist_specific:
  assumes "sublist (md_key r) b"
  shows "sublist (md_key r) (convert_specific_symbols b)"
  unfolding convert_specific_symbols_def Let_def
  by (intro sublist_str_replace assms) (auto simp: ascii_def is_alnum_def)

lemma sublist_single:
  "sublist (md_key r) b \<Longrightarrow> sublist (md_key r) (convert_single_halfwidth_alnum_to_fullwidth b)"
  unfolding sublist_def convert_single_halfwidth_alnum_to_fullwidth_def re_sub_def
  using single_alnum_keeps_key by blast

lemma sublist_question:
  "sublist (md_key r) b \<Longrightarrow> sublist (md_key r) (add_fullwidth_space_after_question_exclamation b)"
  unfolding sublist_def add_fullwidth_space_after_question_exclamation_def re_sub_def
  using question_keeps_key by blast

lemma sublist_space:
  "sublist (md_key r) b \<Longrightarrow> sublist (md_key r) (remove_fullwidth_space_before_closing_quote b)"
  unfolding sublist_def remove_fullwidth_space_before_closing_quote_def re_sub_def
  using space_keeps_key by blast

lemma key_survives_stages:
  assumes "no_angle b" and "sublist (md_key r) b"
  shows "sublist (md_key r)
     (convert_html_void_tags_to_xhtml
       (remove_fullwidth_space_before_closing_quote
         (add_fullwidth_space_after_question_exclamation
           (convert_single_halfwidth_alnum_to_fullwidth
             (convert_specific_symbols
               (convert_escaped_halfwidth_to_fullwidth b))))))"
proof -
  let ?b9 = "remove_fullwidth_space_before_closing_quote
         (add_fullwidth_space_after_question_exclamation
           (convert_single_halfwidth_alnum_to_fullwidth
             (convert_specific_symbols
               (convert_escaped_halfwidth_to_fullwidth b))))"
  have "no_angle ?b9"
    by (intro no_angle_space no_angle_question no_angle_single no_angle_specific no_angle_escaped
        assms(1))
  then have "convert_html_void_tags_to_xhtml ?b9 = ?b9" by (rule void_tags_no_angle)
  moreover have "sublist (md_key r) ?b9"
    by (intro sublist_space sublist_question sublist_single sublist_specific sublist_escaped
        assms(2))
  ultimately show ?thesis by simp
qed

end
